theory Spec2Isabelle
  imports Complex_Main "HOL-Library.Sublist"
begin

section \<open>Strings and numbers of the script\<close>

text \<open>
  Strings are lists of bytes: the UTF-8 encoding of the script's text, which is what
  the downloaded file \<^verbatim>\<open>table.tex\<close> holds. The backslash cannot stand in
  a string literal, so it is written \<open>CHR 0x5C\<close>. Counters and sizes are JavaScript
  numbers holding integers; they are modelled as unbounded \<open>int\<close>, which is exact below
  \<open>2^53\<close>.
\<close>

abbreviation BS :: char where
  "BS \<equiv> CHR 0x5C"

text \<open>\<^verbatim>\<open>"\\hline\n"\<close> and \<^verbatim>\<open>" \\\\\n"\<close>, the two line literals of the handler.\<close>

definition hline :: string where
  "hline = BS # ''hline\<newline>''"

definition row_end :: string where
  "row_end = '' '' @ [BS, BS] @ ''\<newline>''"

text \<open>
  \<^verbatim>\<open>String.prototype.repeat\<close>. It throws for a negative count; every count
  the handler passes is positive (see \<open>generateBtn_click\<close>: both counts have been
  checked before the first call).
\<close>

definition repeat :: "string \<Rightarrow> int \<Rightarrow> string" where
  "repeat str n = concat (replicate (nat n) str)"

text \<open>\<^verbatim>\<open>Array.prototype.join\<close>.\<close>

fun join :: "string \<Rightarrow> string list \<Rightarrow> string" where
  "join sep [] = []"
| "join sep [x] = x"
| "join sep (x # y # ys) = x @ sep @ join sep (y # ys)"

text \<open>Number-to-string conversion of a non-negative integer, then of any integer.\<close>

definition digit_char :: "nat \<Rightarrow> char" where
  "digit_char d = ''0123456789'' ! d"

function nat_toString :: "nat \<Rightarrow> string" where
  "nat_toString n =
     (if n < 10 then [digit_char n]
      else nat_toString (n div 10) @ [digit_char (n mod 10)])"
  by pat_completeness auto
termination
  by (relation "measure id") auto

declare nat_toString.simps [simp del]

definition int_toString :: "int \<Rightarrow> string" where
  "int_toString i = (if i < 0 then ''-'' @ nat_toString (nat (- i)) else nat_toString (nat i))"

subsection \<open>applyFontStyle\<close>

definition applyFontStyle :: "string \<Rightarrow> string \<Rightarrow> string" where
  "applyFontStyle text' fontStyle' =
     (if fontStyle' = ''bold'' then BS # ''textbf{'' @ text' @ ''}'' else text')"

subsection \<open>generateRandomValue\<close>

text \<open>
  \<^verbatim>\<open>parseFloat((Math.random()).toFixed(4))\<close>. For the draw \<open>x\<close>,
  \<^verbatim>\<open>toFixed(4)\<close> takes the integer \<open>n\<close> with \<open>n / 10^4\<close> nearest to \<open>x\<close>, the
  larger one on a tie, and prints \<open>n / 10^4\<close> with four decimals;
  \<^verbatim>\<open>parseFloat\<close> reads that decimal back. The number read back is identified
  with the decimal \<open>n / 10^4\<close> it was read from (the double nearest to it prints as that
  decimal again).
\<close>

definition generateRandomValue :: "real \<Rightarrow> real" where
  "generateRandomValue x = of_int \<lfloor>x * 10000 + 1 / 2\<rfloor> / 10000"

text \<open>
  \<^verbatim>\<open>value.toString()\<close> on such a number \<open>v = n / 10^4\<close>, \<open>0 \<le> v\<close>: the
  integer part, and, unless the fraction is zero, a point and the fraction's four digits
  without their trailing zeros.
\<close>

definition strip_zeros :: "string \<Rightarrow> string" where
  "strip_zeros ds = rev (dropWhile (\<lambda>ch. ch = CHR ''0'') (rev ds))"

definition pad4 :: "nat \<Rightarrow> string" where
  "pad4 n = replicate (4 - length (nat_toString n)) (CHR ''0'') @ nat_toString n"

definition number_toString :: "real \<Rightarrow> string" where
  "number_toString v =
     (let n = nat \<lfloor>v * 10000\<rfloor>; ip = n div 10000; fp = n mod 10000
      in nat_toString ip @ (if fp = 0 then [] else ''.'' @ strip_zeros (pad4 fp)))"

subsection \<open>parseInt\<close>

text \<open>
  \<^verbatim>\<open>parseInt(string)\<close> with no radix: leading white space is skipped, then a
  sign, then the prefix \<^verbatim>\<open>0x\<close> selects radix 16, then the longest run of
  digits is read; no digit at all gives NaN, here \<open>None\<close>. Whatever follows the digits
  is ignored. The white space code points are given by their UTF-8 bytes.
\<close>

definition white_space :: "string list" where
  "white_space =
     [[CHR 0x09], [CHR 0x0A], [CHR 0x0B], [CHR 0x0C], [CHR 0x0D], [CHR 0x20],
      [CHR 0xC2, CHR 0xA0], [CHR 0xE1, CHR 0x9A, CHR 0x80],
      [CHR 0xE2, CHR 0x80, CHR 0x80], [CHR 0xE2, CHR 0x80, CHR 0x81],
      [CHR 0xE2, CHR 0x80, CHR 0x82], [CHR 0xE2, CHR 0x80, CHR 0x83],
      [CHR 0xE2, CHR 0x80, CHR 0x84], [CHR 0xE2, CHR 0x80, CHR 0x85],
      [CHR 0xE2, CHR 0x80, CHR 0x86], [CHR 0xE2, CHR 0x80, CHR 0x87],
      [CHR 0xE2, CHR 0x80, CHR 0x88], [CHR 0xE2, CHR 0x80, CHR 0x89],
      [CHR 0xE2, CHR 0x80, CHR 0x8A], [CHR 0xE2, CHR 0x80, CHR 0xA8],
      [CHR 0xE2, CHR 0x80, CHR 0xA9], [CHR 0xE2, CHR 0x80, CHR 0xAF],
      [CHR 0xE2, CHR 0x81, CHR 0x9F], [CHR 0xE3, CHR 0x80, CHR 0x80],
      [CHR 0xEF, CHR 0xBB, CHR 0xBF]]"

definition white_space_length :: "string \<Rightarrow> nat" where
  "white_space_length S =
     (case find (\<lambda>w. prefix w S) white_space of None \<Rightarrow> 0 | Some w \<Rightarrow> length w)"

function skipWhiteSpace :: "string \<Rightarrow> string" where
  "skipWhiteSpace S =
     (if white_space_length S = 0 then S else skipWhiteSpace (drop (white_space_length S) S))"
  by pat_completeness auto
termination
proof (relation "measure length")
  show "wf (measure length)" by simp
next
  fix S :: string
  assume "white_space_length S \<noteq> 0"
  moreover have "white_space_length [] = 0"
    by (simp add: white_space_length_def white_space_def)
  ultimately have "S \<noteq> []" by auto
  with \<open>white_space_length S \<noteq> 0\<close>
  show "(drop (white_space_length S) S, S) \<in> measure length" by simp
qed

declare skipWhiteSpace.simps [simp del]

definition radix_digit :: "nat \<Rightarrow> char \<Rightarrow> nat option" where
  "radix_digit R ch =
     (let n = (of_char ch :: nat);
          d = (if 48 \<le> n \<and> n \<le> 57 then Some (n - 48)
               else if 97 \<le> n \<and> n \<le> 122 then Some (n - 87)
               else if 65 \<le> n \<and> n \<le> 90 then Some (n - 55)
               else None)
      in case d of None \<Rightarrow> None | Some v \<Rightarrow> if v < R then Some v else None)"

fun parse_digits :: "nat \<Rightarrow> string \<Rightarrow> nat option \<Rightarrow> nat option" where
  "parse_digits R [] acc = acc"
| "parse_digits R (ch # S) acc =
     (case radix_digit R ch of
        None \<Rightarrow> acc
      | Some v \<Rightarrow> parse_digits R S (Some (case acc of None \<Rightarrow> v | Some a \<Rightarrow> a * R + v)))"

definition parseInt :: "string \<Rightarrow> int option" where
  "parseInt string =
     (let S = skipWhiteSpace string;
          sign = (if take 1 S = ''-'' then - 1 else 1 :: int);
          S1 = (if take 1 S = ''-'' \<or> take 1 S = ''+'' then drop 1 S else S);
          R = (if take 2 S1 = ''0x'' \<or> take 2 S1 = ''0X'' then 16 else 10 :: nat);
          S2 = (if R = 16 then drop 2 S1 else S1)
      in map_option (\<lambda>m. sign * int m) (parse_digits R S2 None))"

section \<open>The page and the click handler of generateBtn\<close>

datatype error = InvalidConfigError

text \<open>The form controls the handler reads.\<close>

record form =
  rows_value :: string
  columns_value :: string
  style_value :: string
  header_checked :: bool
  autoNumber_checked :: bool
  fontStyle_value :: string
  isNumeric_checked :: bool

text \<open>
  The script's variables, which live as long as the page, the text of the output area,
  the markup handed to the preview, and the number of calls of
  \<^verbatim>\<open>Math.random\<close> made so far. A parsed count is \<open>None\<close> when it is NaN.
\<close>

record page =
  rows :: "int option"
  columns :: "int option"
  style :: string
  hasHeader :: bool
  autoNumber :: bool
  fontStyle :: string
  isNumeric :: bool
  previewRows :: int
  previewColumns :: int
  totalColumns :: int
  totalPreviewColumns :: int
  latexOutput :: string
  latexPreview :: string
  output_value :: string
  tablePreview :: string
  random_calls :: nat

text \<open>\<^verbatim>\<open>renderTablePreview\<close>: the markup placed in the preview element.\<close>

definition renderTablePreview :: "string \<Rightarrow> string" where
  "renderTablePreview latex = BS # ''('' @ latex @ BS # '')''"

text \<open>
  The switch on \<open>style\<close>. The pair is \<open>(latexOutput, latexPreview)\<close>; \<open>s\<close> holds the
  variables assigned before.
\<close>

definition add_style :: "page \<Rightarrow> string \<times> string \<Rightarrow> string \<times> string" where
  "add_style s = (\<lambda>(out, prev).
     if style s = ''full'' then
       (out @ ''|'' @ repeat ''c|'' (totalColumns s) @ ''}\<newline>'' @ hline,
        prev @ ''|'' @ repeat ''c|'' (totalPreviewColumns s) @ ''}\<newline>'' @ hline)
     else if style s = ''horizontal'' then
       (out @ (if autoNumber s then ''c|'' @ repeat ''c '' (totalColumns s - 1) @ ''}\<newline>''
               else repeat ''c '' (totalColumns s) @ ''}\<newline>''),
        prev @ (if autoNumber s then ''c|'' @ repeat ''c '' (totalPreviewColumns s - 1) @ ''}\<newline>''
                else repeat ''c '' (totalPreviewColumns s) @ ''}\<newline>''))
     else
       (out @ repeat ''c '' (totalColumns s) @ ''}\<newline>'',
        prev @ repeat ''c '' (totalPreviewColumns s) @ ''}\<newline>''))"

text \<open>The header label of column \<open>i\<close> (0-based), \<^verbatim>\<open>`Nag\u0142\u00f3wek ${i + 1}`\<close>.\<close>

definition header_label :: "int \<Rightarrow> string" where
  "header_label i =
     ''Nag'' @ [CHR 0xC5, CHR 0x82, CHR 0xC3, CHR 0xB3] @ ''wek '' @ int_toString (i + 1)"

text \<open>\<^verbatim>\<open>Array.from({ length: n }, (_, i) => g i)\<close>.\<close>

definition array_from :: "int \<Rightarrow> (int \<Rightarrow> 'a) \<Rightarrow> 'a list" where
  "array_from n g = map g [0..n - 1]"

definition add_header :: "page \<Rightarrow> int \<Rightarrow> string \<times> string \<Rightarrow> string \<times> string" where
  "add_header s c = (\<lambda>(out, prev).
     if hasHeader s then
       let out1 = (if autoNumber s then out @ applyFontStyle ''Numer wiersza'' (fontStyle s) @ '' & ''
                   else out);
           prev1 = (if autoNumber s then prev @ applyFontStyle ''Numer wiersza'' (fontStyle s) @ '' & ''
                    else prev);
           headers = join '' & '' (array_from c (\<lambda>i. applyFontStyle (header_label i) (fontStyle s)));
           previewHeaders =
             join '' & '' (array_from (previewColumns s)
               (\<lambda>i. applyFontStyle (header_label i) (fontStyle s)));
           out2 = out1 @ headers @ row_end;
           prev2 = prev1 @ previewHeaders @ row_end
       in if style s \<noteq> ''none'' then (out2 @ hline, prev2 @ hline) else (out2, prev2)
     else (out, prev))"

text \<open>
  The loop over the columns of one row. The triple is \<open>(rowOutput, rowPreview, n)\<close>
  with \<open>n\<close> the number of draws made so far; \<open>random n\<close> is the value the next call of
  \<^verbatim>\<open>Math.random\<close> returns.
\<close>

function cells_loop ::
  "page \<Rightarrow> (nat \<Rightarrow> real) \<Rightarrow> int \<Rightarrow> int \<Rightarrow> string \<times> string \<times> nat \<Rightarrow> string \<times> string \<times> nat" where
  "cells_loop s random c j (rowOutput, rowPreview, n) =
     (if j < c then
        let cellText = (if isNumeric s then number_toString (generateRandomValue (random n))
                        else ''Kolumna'' @ int_toString (j + 1));
            n' = (if isNumeric s then Suc n else n);
            rowOutput' = rowOutput @ applyFontStyle cellText (fontStyle s)
                           @ (if j < c - 1 then '' & '' else '''');
            rowPreview' =
              (if j < previewColumns s then
                 rowPreview @ applyFontStyle cellText (fontStyle s)
                   @ (if j < previewColumns s - 1 then '' & '' else '''')
               else rowPreview)
        in cells_loop s random c (j + 1) (rowOutput', rowPreview', n')
      else (rowOutput, rowPreview, n))"
  by pat_completeness auto
termination
  by (relation "measure (\<lambda>(s, random, c, j, acc). nat (c - j))") auto

declare cells_loop.simps [simp del]

text \<open>The loop over the rows; the triple is \<open>(latexOutput, latexPreview, n)\<close>.\<close>

function rows_loop ::
  "page \<Rightarrow> (nat \<Rightarrow> real) \<Rightarrow> int \<Rightarrow> int \<Rightarrow> int \<Rightarrow> string \<times> string \<times> nat \<Rightarrow> string \<times> string \<times> nat" where
  "rows_loop s random r c i (out, prev, n) =
     (if i \<le> r then
        let rowOutput = (if autoNumber s then applyFontStyle (int_toString i) (fontStyle s) @ '' & ''
                         else '''');
            rowPreview = (if autoNumber s then applyFontStyle (int_toString i) (fontStyle s) @ '' & ''
                          else '''');
            (rowOutput', rowPreview', n') = cells_loop s random c 0 (rowOutput, rowPreview, n);
            out1 = out @ rowOutput' @ row_end;
            prev1 = (if i \<le> previewRows s then prev @ rowPreview' @ row_end else prev);
            out2 = (if style s = ''horizontal'' \<and> i < r then out1 @ hline else out1);
            prev2 = (if style s = ''horizontal'' \<and> i < r \<and> i < previewRows s then prev1 @ hline
                     else prev1);
            out3 = (if style s = ''full'' \<and> i < r then out2 @ hline else out2);
            prev3 = (if style s = ''full'' \<and> i < r \<and> i < previewRows s then prev2 @ hline
                     else prev2)
        in rows_loop s random r c (i + 1) (out3, prev3, n')
      else (out, prev, n))"
  by pat_completeness auto
termination
  by (relation "measure (\<lambda>(s, random, r, c, i, acc). nat (r + 1 - i))") auto

declare rows_loop.simps [simp del]

text \<open>The final rule of style \<open>full\<close> and the closing directives.\<close>

definition add_end :: "page \<Rightarrow> string \<times> string \<Rightarrow> string \<times> string" where
  "add_end s = (\<lambda>(out, prev).
     let out1 = (if style s = ''full'' then out @ hline else out);
         prev1 = (if style s = ''full'' then prev @ hline else prev)
     in (out1 @ BS # ''end{tabular}'', prev1 @ BS # ''end{array}''))"

text \<open>
  The handler. When the check of the two counts fails it alerts and returns, which is the
  error \<open>InvalidConfigError\<close>; the variables read from the form have been assigned by
  then. The second listener of the button, \<^verbatim>\<open>saveSettings\<close>, only writes the
  form's values to the settings store and is left out.
\<close>

definition generateBtn_click :: "form \<Rightarrow> (nat \<Rightarrow> real) \<Rightarrow> page \<Rightarrow> error option \<times> page" where
  "generateBtn_click f random s0 =
     (let s1 = s0\<lparr>rows := parseInt (rows_value f), columns := parseInt (columns_value f),
                  style := style_value f, hasHeader := header_checked f,
                  autoNumber := autoNumber_checked f, fontStyle := fontStyle_value f,
                  isNumeric := isNumeric_checked f\<rparr>
      in case (rows s1, columns s1) of
           (Some r, Some c) \<Rightarrow>
             if r \<le> 0 \<or> c \<le> 0 then (Some InvalidConfigError, s1)
             else
               let s2 = s1\<lparr>previewRows := min r 5, previewColumns := min c 5\<rparr>;
                   s3 = s2\<lparr>totalColumns := (if autoNumber s2 then c + 1 else c),
                            totalPreviewColumns :=
                              (if autoNumber s2 then previewColumns s2 + 1 else previewColumns s2)\<rparr>;
                   (out1, prev1) = add_style s3 (BS # ''begin{tabular}{'', BS # ''begin{array}{'');
                   (out2, prev2) = add_header s3 c (out1, prev1);
                   (out3, prev3, n) = rows_loop s3 random r c 1 (out2, prev2, random_calls s3);
                   (out4, prev4) = add_end s3 (out3, prev3)
               in (None, s3\<lparr>latexOutput := out4, latexPreview := prev4, output_value := out4,
                             tablePreview := renderTablePreview prev4, random_calls := n\<rparr>)
         | _ \<Rightarrow> (Some InvalidConfigError, s1))"

section \<open>The markup described cell by cell\<close>

text \<open>
  The definitions of this section follow the description of the output, not the handler:
  a table is an opening directive with its column specification, an optional header row,
  the data rows, each a list of cells joined by \<^verbatim>\<open>" & "\<close> and closed by the row-end
  marker, the rule lines, and the closing directive. The handler is compared with them
  below.
\<close>

text \<open>
  The styled text of the data cell in column \<open>j\<close> (0-based) of a row whose first draw has
  index \<open>b\<close>.
\<close>

definition data_cell :: "bool \<Rightarrow> string \<Rightarrow> (nat \<Rightarrow> real) \<Rightarrow> int \<Rightarrow> int \<Rightarrow> string" where
  "data_cell num fs random b j =
     applyFontStyle
       (if num then number_toString (generateRandomValue (random (nat (b + j))))
        else ''Kolumna'' @ int_toString (j + 1)) fs"

text \<open>The row-number cell of row \<open>i\<close>, present when the rows are numbered.\<close>

definition number_cell :: "bool \<Rightarrow> string \<Rightarrow> int \<Rightarrow> string list" where
  "number_cell an fs i = (if an then [applyFontStyle (int_toString i) fs] else [])"

text \<open>The cells of the header row over \<open>w\<close> data columns.\<close>

definition header_cells :: "bool \<Rightarrow> string \<Rightarrow> int \<Rightarrow> string list" where
  "header_cells an fs w =
     (if an then [applyFontStyle ''Numer wiersza'' fs] else [])
     @ map (\<lambda>j. applyFontStyle (header_label j) fs) [0..w - 1]"

text \<open>
  The cells of data row \<open>i\<close> (1-based) over its first \<open>w\<close> data columns, in a table of \<open>c\<close>
  columns generated after \<open>n0\<close> earlier draws: with numeric cells, row \<open>i\<close> uses the draws
  \<open>n0 + (i - 1) * c\<close> onwards, one for each of its \<open>c\<close> columns.
\<close>

definition row_cells ::
  "bool \<Rightarrow> string \<Rightarrow> bool \<Rightarrow> (nat \<Rightarrow> real) \<Rightarrow> nat \<Rightarrow> int \<Rightarrow> int \<Rightarrow> int \<Rightarrow> string list" where
  "row_cells an fs num random n0 c w i =
     number_cell an fs i @ map (data_cell num fs random (int n0 + (i - 1) * c)) [0..w - 1]"

text \<open>The column specification for \<open>tc\<close> columns in all.\<close>

definition column_spec :: "string \<Rightarrow> bool \<Rightarrow> int \<Rightarrow> string" where
  "column_spec sty an tc =
     (if sty = ''full'' then ''|'' @ repeat ''c|'' tc
      else if sty = ''horizontal'' \<and> an then ''c|'' @ repeat ''c '' (tc - 1)
      else repeat ''c '' tc)"

text \<open>
  The rule the loop emits after data row \<open>i\<close> of \<open>h\<close>, and the rule that follows row \<open>i\<close> in
  the finished table (the last row of style \<open>full\<close> gets its rule after the loop).
\<close>

definition loop_rule :: "string \<Rightarrow> int \<Rightarrow> int \<Rightarrow> string" where
  "loop_rule sty h i = (if (sty = ''horizontal'' \<or> sty = ''full'') \<and> i < h then hline else [])"

definition rule_after :: "string \<Rightarrow> int \<Rightarrow> int \<Rightarrow> string" where
  "rule_after sty h i = (if sty = ''full'' \<or> (sty = ''horizontal'' \<and> i < h) then hline else [])"

text \<open>
  The table in environment \<open>env\<close> with \<open>tc\<close> columns in all, header cells \<open>H\<close> (when \<open>hdr\<close>)
  and \<open>h\<close> data rows, row \<open>i\<close> holding the cells \<open>R i\<close>. It is defined for every style
  string, as the handler is.
\<close>

definition markup ::
  "string \<Rightarrow> string \<Rightarrow> bool \<Rightarrow> bool \<Rightarrow> int \<Rightarrow> int \<Rightarrow> string list \<Rightarrow> (int \<Rightarrow> string list) \<Rightarrow> string" where
  "markup env sty an hdr tc h H R =
     BS # ''begin{'' @ env @ ''}{'' @ column_spec sty an tc @ ''}\<newline>''
     @ (if sty = ''full'' then hline else [])
     @ (if hdr then join '' & '' H @ row_end @ (if sty \<noteq> ''none'' then hline else []) else [])
     @ concat (map (\<lambda>i. join '' & '' (R i) @ row_end @ rule_after sty h i) [1..h])
     @ BS # ''end{'' @ env @ ''}''"

text \<open>The full table and the preview for a form, \<open>r\<close> rows and \<open>c\<close> columns.\<close>

definition full_markup :: "form \<Rightarrow> (nat \<Rightarrow> real) \<Rightarrow> nat \<Rightarrow> int \<Rightarrow> int \<Rightarrow> string" where
  "full_markup f random n0 r c =
     markup ''tabular'' (style_value f) (autoNumber_checked f) (header_checked f)
       (if autoNumber_checked f then c + 1 else c) r
       (header_cells (autoNumber_checked f) (fontStyle_value f) c)
       (row_cells (autoNumber_checked f) (fontStyle_value f) (isNumeric_checked f) random n0 c c)"

definition preview_markup :: "form \<Rightarrow> (nat \<Rightarrow> real) \<Rightarrow> nat \<Rightarrow> int \<Rightarrow> int \<Rightarrow> string" where
  "preview_markup f random n0 r c =
     markup ''array'' (style_value f) (autoNumber_checked f) (header_checked f)
       (if autoNumber_checked f then min c 5 + 1 else min c 5) (min r 5)
       (header_cells (autoNumber_checked f) (fontStyle_value f) (min c 5))
       (row_cells (autoNumber_checked f) (fontStyle_value f) (isNumeric_checked f) random n0 c (min c 5))"

text \<open>
  The three border styles in the words of the specification: \<open>full\<close> marks every column
  boundary, opens with a rule and puts a rule after the header and after every row;
  \<open>horizontal\<close> has one separator after the row-number column, a rule after the header
  and between the rows; \<open>none\<close> has neither boundaries nor rules.
\<close>

definition bordered_table ::
  "string \<Rightarrow> string \<Rightarrow> bool \<Rightarrow> bool \<Rightarrow> int \<Rightarrow> int \<Rightarrow> string list \<Rightarrow> (int \<Rightarrow> string list) \<Rightarrow> string" where
  "bordered_table env sty an hdr tc h H R =
     (if sty = ''full'' then
        BS # ''begin{'' @ env @ ''}{'' @ ''|'' @ repeat ''c|'' tc @ ''}\<newline>'' @ hline
        @ (if hdr then join '' & '' H @ row_end @ hline else [])
        @ concat (map (\<lambda>i. join '' & '' (R i) @ row_end @ hline) [1..h])
        @ BS # ''end{'' @ env @ ''}''
      else if sty = ''horizontal'' then
        BS # ''begin{'' @ env @ ''}{''
        @ (if an then ''c|'' @ repeat ''c '' (tc - 1) else repeat ''c '' tc) @ ''}\<newline>''
        @ (if hdr then join '' & '' H @ row_end @ hline else [])
        @ concat (map (\<lambda>i. join '' & '' (R i) @ row_end @ (if i < h then hline else [])) [1..h])
        @ BS # ''end{'' @ env @ ''}''
      else
        BS # ''begin{'' @ env @ ''}{'' @ repeat ''c '' tc @ ''}\<newline>''
        @ (if hdr then join '' & '' H @ row_end else [])
        @ concat (map (\<lambda>i. join '' & '' (R i) @ row_end) [1..h])
        @ BS # ''end{'' @ env @ ''}'')"

section \<open>Counting directives and markers\<close>

text \<open>The number of positions of \<open>s\<close> at which the pattern \<open>p\<close> starts.\<close>

fun occurrences :: "string \<Rightarrow> string \<Rightarrow> nat" where
  "occurrences p [] = 0"
| "occurrences p (ch # s) = (if prefix p (ch # s) then 1 else 0) + occurrences p s"

text \<open>
  No occurrence of \<open>p\<close> can start in \<open>s\<close> and run beyond its end: \<open>s\<close> ends in a character
  that \<open>p\<close> has only in last place, if at all.
\<close>

definition ends_clear :: "string \<Rightarrow> string \<Rightarrow> bool" where
  "ends_clear p s = (s = [] \<or> last s \<notin> set (butlast p))"

definition safe_end :: "string \<Rightarrow> bool" where
  "safe_end s = (s = [] \<or> last s \<notin> set (BS # ''begind''))"

text \<open>The decimal digits, and the characters of printed numbers.\<close>

definition digits :: "char set" where
  "digits = set ''0123456789''"

definition plain :: "char set" where
  "plain = set ''-.0123456789''"

text \<open>
  What the labels and the styled cells of the generator have in common: no separator, no
  line break, no row-end marker and no environment directive inside.
\<close>

definition label_ok :: "string \<Rightarrow> bool" where
  "label_ok t = (t \<noteq> [] \<and> BS \<notin> set t \<and> CHR ''&'' \<notin> set t \<and> CHR 0x0A \<notin> set t
     \<and> last t \<notin> set ''begind'')"

definition cell_ok :: "string \<Rightarrow> bool" where
  "cell_ok cell = (cell \<noteq> [] \<and> CHR ''&'' \<notin> set cell \<and> CHR 0x0A \<notin> set cell
     \<and> last cell \<notin> set (BS # ''begind'')
     \<and> occurrences [BS, BS] cell = 0
     \<and> occurrences (BS # ''begin{'') cell = 0
     \<and> occurrences (BS # ''end{'') cell = 0)"

section \<open>Reading a printed number\<close>

text \<open>
  The number a decimal text denotes: the digits before the point, read in base ten, plus
  the digits after it over the matching power of ten. It is used to state which number a
  cell text stands for.
\<close>

definition digit_of :: "char \<Rightarrow> nat" where
  "digit_of ch = of_char ch - 48"

definition digits_value :: "string \<Rightarrow> nat" where
  "digits_value ds = foldl (\<lambda>a ch. a * 10 + digit_of ch) 0 ds"

definition decimal_value :: "string \<Rightarrow> real" where
  "decimal_value t =
     (let ip = takeWhile (\<lambda>ch. ch \<noteq> CHR ''.'') t;
          fp = drop 1 (dropWhile (\<lambda>ch. ch \<noteq> CHR ''.'') t)
      in real (digits_value ip) + real (digits_value fp) / 10 ^ length fp)"

section \<open>Example inputs\<close>

text \<open>
  The page right after loading: no variable assigned yet (NaN, the empty string, false
  and 0 stand for that), output and preview empty, no draw made.
\<close>

definition page_loaded :: page where
  "page_loaded = \<lparr>rows = None, columns = None, style = [], hasHeader = False, autoNumber = False,
     fontStyle = [], isNumeric = False, previewRows = 0, previewColumns = 0, totalColumns = 0,
     totalPreviewColumns = 0, latexOutput = [], latexPreview = [], output_value = [],
     tablePreview = [], random_calls = 0\<rparr>"

text \<open>A random source that returns the listed values in turn and 0 afterwards.\<close>

definition draws :: "real list \<Rightarrow> nat \<Rightarrow> real" where
  "draws xs n = (if n < length xs then xs ! n else 0)"

text \<open>
  The form with the given values of its controls, in the order rows, columns, style,
  header, autoNumber, fontStyle, isNumeric.
\<close>

definition table_form :: "string \<Rightarrow> string \<Rightarrow> string \<Rightarrow> bool \<Rightarrow> bool \<Rightarrow> string \<Rightarrow> bool \<Rightarrow> form" where
  "table_form r c sty hdr an fs num =
     \<lparr>rows_value = r, columns_value = c, style_value = sty, header_checked = hdr,
      autoNumber_checked = an, fontStyle_value = fs, isNumeric_checked = num\<rparr>"

section \<open>The handler computes the described markup\<close>

lemma join_sep_upto:
  "concat (map (\<lambda>j. g j @ (if j < c - 1 then sep else [])) [j0..c - 1]) = join sep (map g [j0..c - 1])"
proof (induction "nat (c - j0)" arbitrary: j0)
  case 0
  then show ?case by simp
next
  case (Suc k)
  then have lt: "j0 \<le> c - 1" by linarith
  have IH: "concat (map (\<lambda>j. g j @ (if j < c - 1 then sep else [])) [j0 + 1..c - 1])
              = join sep (map g [j0 + 1..c - 1])"
    using Suc by (intro Suc.hyps(1)) linarith
  show ?case
  proof (cases "j0 < c - 1")
    case True
    then obtain ys where "[j0 + 1..c - 1] = (j0 + 1) # ys"
      using upto_rec1 [of "j0 + 1" "c - 1"] by auto
    then show ?thesis using IH True lt by (simp add: upto_rec1 [of j0])
  next
    case False
    with lt have "j0 = c - 1" by simp
    then show ?thesis by simp
  qed
qed

lemma cells_loop_closed:
  "0 \<le> j \<Longrightarrow> previewColumns s \<le> c \<Longrightarrow>
   cells_loop s random c j (ro, rp, n) =
     (ro @ concat (map (\<lambda>k. data_cell (isNumeric s) (fontStyle s) random (int n - j) k
                            @ (if k < c - 1 then '' & '' else [])) [j..c - 1]),
      rp @ concat (map (\<lambda>k. data_cell (isNumeric s) (fontStyle s) random (int n - j) k
                            @ (if k < previewColumns s - 1 then '' & '' else [])) [j..previewColumns s - 1]),
      if isNumeric s then n + nat (c - j) else n)"
proof (induction s random c j "(ro, rp, n)" arbitrary: ro rp n rule: cells_loop.induct)
  case (1 s random c j ro rp n)
  show ?case
  proof (cases "j < c")
    case False
    with 1(3) have "[j..c - 1] = []" "[j..previewColumns s - 1] = []" by simp_all
    with False show ?thesis by (simp add: cells_loop.simps)
  next
    case True
    let ?ct = "if isNumeric s then number_toString (generateRandomValue (random n))
               else ''Kolumna'' @ int_toString (j + 1)"
    let ?n' = "if isNumeric s then Suc n else n"
    have cur: "data_cell (isNumeric s) (fontStyle s) random (int n - j) j = applyFontStyle ?ct (fontStyle s)"
      by (simp add: data_cell_def)
    have base: "data_cell (isNumeric s) (fontStyle s) random (int ?n' - (j + 1))
                 = data_cell (isNumeric s) (fontStyle s) random (int n - j)"
      by (auto simp: data_cell_def fun_eq_iff)
    have full: "[j..c - 1] = j # [j + 1..c - 1]" using True by (simp add: upto_rec1)
    have prev: "[j..previewColumns s - 1] = (if j < previewColumns s then j # [j + 1..previewColumns s - 1] else [])"
      by (simp add: upto_rec1)
    have prev': "\<not> j < previewColumns s \<Longrightarrow> [j + 1..previewColumns s - 1] = []" by simp
    have cnt: "(if isNumeric s then ?n' + nat (c - (j + 1)) else ?n') = (if isNumeric s then n + nat (c - j) else n)"
      using True by auto
    have step: "cells_loop s random c j (ro, rp, n) =
       cells_loop s random c (j + 1)
         (ro @ applyFontStyle ?ct (fontStyle s) @ (if j < c - 1 then '' & '' else ''''),
          if j < previewColumns s then rp @ applyFontStyle ?ct (fontStyle s) @ (if j < previewColumns s - 1 then '' & '' else '''') else rp,
          ?n')"
      using True by (subst cells_loop.simps) (simp add: Let_def)
    have IH: "cells_loop s random c (j + 1)
         (ro @ applyFontStyle ?ct (fontStyle s) @ (if j < c - 1 then '' & '' else ''''),
          if j < previewColumns s then rp @ applyFontStyle ?ct (fontStyle s) @ (if j < previewColumns s - 1 then '' & '' else '''') else rp,
          ?n') = 
       ((ro @ applyFontStyle ?ct (fontStyle s) @ (if j < c - 1 then '' & '' else ''''))
          @ concat (map (\<lambda>k. data_cell (isNumeric s) (fontStyle s) random (int ?n' - (j + 1)) k
                            @ (if k < c - 1 then '' & '' else [])) [j + 1..c - 1]),
        (if j < previewColumns s then rp @ applyFontStyle ?ct (fontStyle s) @ (if j < previewColumns s - 1 then '' & '' else '''') else rp)
          @ concat (map (\<lambda>k. data_cell (isNumeric s) (fontStyle s) random (int ?n' - (j + 1)) k
                            @ (if k < previewColumns s - 1 then '' & '' else [])) [j + 1..previewColumns s - 1]),
        if isNumeric s then ?n' + nat (c - (j + 1)) else ?n')"
      using True 1(2,3) by (intro 1(1)) auto
    show ?thesis
      unfolding step IH base cnt
      by (subst full, subst prev) (simp add: cur prev')
  qed
qed

lemma data_cell_base:
  "(num \<Longrightarrow> b = b') \<Longrightarrow> data_cell num fs random b = data_cell num fs random b'"
  by (auto simp: data_cell_def fun_eq_iff)

lemma join_Cons: "join sep (x # xs) = x @ (if xs = [] then [] else sep @ join sep xs)"
  by (cases xs) simp_all

lemma cells_loop_row:
  assumes "0 < previewColumns s" "previewColumns s \<le> c"
  shows "cells_loop s random c 0
           (if autoNumber s then applyFontStyle (int_toString i) (fontStyle s) @ '' & '' else [],
            if autoNumber s then applyFontStyle (int_toString i) (fontStyle s) @ '' & '' else [], n) =
     (join '' & '' (number_cell (autoNumber s) (fontStyle s) i
                     @ map (data_cell (isNumeric s) (fontStyle s) random (int n)) [0..c - 1]),
      join '' & '' (number_cell (autoNumber s) (fontStyle s) i
                     @ map (data_cell (isNumeric s) (fontStyle s) random (int n)) [0..previewColumns s - 1]),
      if isNumeric s then n + nat c else n)"
proof -
  have ne: "[0..c - 1] = 0 # [1..c - 1]" "[0..previewColumns s - 1] = 0 # [1..previewColumns s - 1]"
    using assms by (simp_all add: upto_rec1)
  show ?thesis
    using assms
    by (simp add: cells_loop_closed join_sep_upto number_cell_def ne join_Cons del: join.simps(2,3))
qed

lemma rows_loop_closed:
  assumes "0 < previewColumns s" "previewColumns s \<le> c" "previewRows s \<le> r"
  shows "rows_loop s random r c i (out, prev, n) =
     (out @ concat (map (\<lambda>k. join '' & '' (number_cell (autoNumber s) (fontStyle s) k
                                @ map (data_cell (isNumeric s) (fontStyle s) random (int n + (k - i) * c)) [0..c - 1])
                            @ row_end @ loop_rule (style s) r k) [i..r]),
      prev @ concat (map (\<lambda>k. join '' & '' (number_cell (autoNumber s) (fontStyle s) k
                                @ map (data_cell (isNumeric s) (fontStyle s) random (int n + (k - i) * c))
                                    [0..previewColumns s - 1])
                            @ row_end @ loop_rule (style s) (previewRows s) k) [i..previewRows s]),
      if isNumeric s then n + nat ((r + 1 - i) * c) else n)"
  using assms
proof (induction s random r c i "(out, prev, n)" arbitrary: out prev n rule: rows_loop.induct)
  case (1 s random r c i out prev n)
  note pc = 1(2,3) and pr = 1(4)
  let ?F = "\<lambda>n k. join '' & '' (number_cell (autoNumber s) (fontStyle s) k
                                @ map (data_cell (isNumeric s) (fontStyle s) random (int n)) [0..c - 1])"
  let ?P = "\<lambda>n k. join '' & '' (number_cell (autoNumber s) (fontStyle s) k
                                @ map (data_cell (isNumeric s) (fontStyle s) random (int n))
                                    [0..previewColumns s - 1])"
  show ?case
  proof (cases "i \<le> r")
    case False
    with pr have "[i..r] = []" "[i..previewRows s] = []" by simp_all
    moreover have "(r + 1 - i) * c \<le> 0"
      using False pc by (simp add: mult_le_0_iff)
    ultimately show ?thesis using False by (simp add: rows_loop.simps)
  next
    case True
    from pc have cpos: "0 < c" by linarith
    let ?n' = "if isNumeric s then n + nat c else n"
    let ?out' = "out @ ?F n i @ row_end @ loop_rule (style s) r i"
    let ?prev' = "if i \<le> previewRows s then prev @ ?P n i @ row_end @ loop_rule (style s) (previewRows s) i else prev"
    have step: "rows_loop s random r c i (out, prev, n) = rows_loop s random r c (i + 1) (?out', ?prev', ?n')"
      using True pr
      by (subst rows_loop.simps) (auto simp: cells_loop_row [OF pc] Let_def loop_rule_def)
    have IH: "rows_loop s random r c (i + 1) (?out', ?prev', ?n') =
       (?out' @ concat (map (\<lambda>k. join '' & '' (number_cell (autoNumber s) (fontStyle s) k
                                @ map (data_cell (isNumeric s) (fontStyle s) random (int ?n' + (k - (i + 1)) * c)) [0..c - 1])
                            @ row_end @ loop_rule (style s) r k) [i + 1..r]),
        ?prev' @ concat (map (\<lambda>k. join '' & '' (number_cell (autoNumber s) (fontStyle s) k
                                @ map (data_cell (isNumeric s) (fontStyle s) random (int ?n' + (k - (i + 1)) * c))
                                    [0..previewColumns s - 1])
                            @ row_end @ loop_rule (style s) (previewRows s) k) [i + 1..previewRows s]),
        if isNumeric s then ?n' + nat ((r + 1 - (i + 1)) * c) else ?n')"
    proof -
      have eq1: "(if style s = ''full'' \<and> i < r
                  then (if style s = ''horizontal'' \<and> i < r then (out @ ?F n i @ row_end) @ hline
                        else out @ ?F n i @ row_end) @ hline
                  else (if style s = ''horizontal'' \<and> i < r then (out @ ?F n i @ row_end) @ hline
                        else out @ ?F n i @ row_end)) = ?out'"
        by (auto simp: loop_rule_def)
      have eq2: "(if style s = ''full'' \<and> i < r \<and> i < previewRows s
                  then (if style s = ''horizontal'' \<and> i < r \<and> i < previewRows s
                        then (if i \<le> previewRows s then prev @ ?P n i @ row_end else prev) @ hline
                        else (if i \<le> previewRows s then prev @ ?P n i @ row_end else prev)) @ hline
                  else (if style s = ''horizontal'' \<and> i < r \<and> i < previewRows s
                        then (if i \<le> previewRows s then prev @ ?P n i @ row_end else prev) @ hline
                        else (if i \<le> previewRows s then prev @ ?P n i @ row_end else prev))) = ?prev'"
        using pr by (auto simp: loop_rule_def)
      note ih = 1(1) [OF True refl refl refl, unfolded cells_loop_row [OF pc],
                    OF refl refl refl refl refl refl refl refl pc pr]
      show ?thesis
        using ih unfolding eq1 eq2 .
    qed
    have base: "\<And>k. data_cell (isNumeric s) (fontStyle s) random (int ?n' + (k - (i + 1)) * c)
                 = data_cell (isNumeric s) (fontStyle s) random (int n + (k - i) * c)"
      using cpos by (intro data_cell_base) (simp add: algebra_simps)
    have cnt: "(if isNumeric s then ?n' + nat ((r + 1 - (i + 1)) * c) else ?n')
                 = (if isNumeric s then n + nat ((r + 1 - i) * c) else n)"
    proof -
      have nn: "0 \<le> (r - i) * c" using True cpos by simp
      have "(r + 1 - i) * c = c + (r - i) * c" by (simp add: algebra_simps)
      then have "nat ((r + 1 - i) * c) = nat c + nat ((r - i) * c)"
        using nn cpos by (simp add: nat_add_distrib)
      then show ?thesis by simp
    qed
    have full: "[i..r] = i # [i + 1..r]" using True by (simp add: upto_rec1)
    have prev: "[i..previewRows s] = (if i \<le> previewRows s then i # [i + 1..previewRows s] else [])"
      by (simp add: upto_rec1)
    have prev': "\<not> i \<le> previewRows s \<Longrightarrow> [i + 1..previewRows s] = []" by simp
    show ?thesis
      unfolding step IH base cnt
      by (subst full, subst prev) (simp add: prev')
  qed
qed

lemma rows_rule:
  assumes "0 < h"
  shows "concat (map (\<lambda>k. L k @ row_end @ loop_rule sty h k) [1..h]) @ (if sty = ''full'' then hline else [])
           = concat (map (\<lambda>k. L k @ row_end @ rule_after sty h k) [1..h])"
proof -
  have split: "[1..h] = [1..h - 1] @ [h]"
    using assms upto_rec2 [of 1 h] by simp
  have "map (\<lambda>k. L k @ row_end @ loop_rule sty h k) [1..h - 1] = map (\<lambda>k. L k @ row_end @ rule_after sty h k) [1..h - 1]"
    by (rule map_cong) (auto simp: loop_rule_def rule_after_def)
  then have front: "concat (map (\<lambda>k. L k @ row_end @ loop_rule sty h k) [1..h - 1])
                     = concat (map (\<lambda>k. L k @ row_end @ rule_after sty h k) [1..h - 1])"
    by (rule arg_cong)
  have tail_eq: "loop_rule sty h h @ (if sty = ''full'' then hline else []) = rule_after sty h h"
    by (simp add: loop_rule_def rule_after_def)
  have "concat (map (\<lambda>k. L k @ row_end @ loop_rule sty h k) ([1..h - 1] @ [h])) @ (if sty = ''full'' then hline else [])
          = concat (map (\<lambda>k. L k @ row_end @ loop_rule sty h k) [1..h - 1])
            @ L h @ row_end @ loop_rule sty h h @ (if sty = ''full'' then hline else [])"
    by simp
  also have "\<dots> = concat (map (\<lambda>k. L k @ row_end @ rule_after sty h k) [1..h - 1]) @ L h @ row_end @ rule_after sty h h"
    unfolding front tail_eq ..
  also have "\<dots> = concat (map (\<lambda>k. L k @ row_end @ rule_after sty h k) ([1..h - 1] @ [h]))"
    by simp
  finally show ?thesis unfolding split .
qed

lemma add_header_closed:
  assumes "0 < previewColumns s" "previewColumns s \<le> c"
  shows "add_header s c (out, prev) =
     (out @ (if hasHeader s then join '' & '' (header_cells (autoNumber s) (fontStyle s) c) @ row_end
                @ (if style s \<noteq> ''none'' then hline else []) else []),
      prev @ (if hasHeader s then join '' & '' (header_cells (autoNumber s) (fontStyle s) (previewColumns s)) @ row_end
                @ (if style s \<noteq> ''none'' then hline else []) else []))"
proof -
  have ne: "[0..c - 1] = 0 # [1..c - 1]" "[0..previewColumns s - 1] = 0 # [1..previewColumns s - 1]"
    using assms by (simp_all add: upto_rec1)
  show ?thesis
    by (simp add: add_header_def array_from_def header_cells_def Let_def ne join_Cons del: join.simps(2,3))
qed

lemma add_style_closed:
  "add_style s (out, prev) =
     (out @ column_spec (style s) (autoNumber s) (totalColumns s) @ ''}\<newline>''
          @ (if style s = ''full'' then hline else []),
      prev @ column_spec (style s) (autoNumber s) (totalPreviewColumns s) @ ''}\<newline>''
          @ (if style s = ''full'' then hline else []))"
  by (simp add: add_style_def column_spec_def)

lemma add_end_closed:
  "add_end s (out, prev) =
     (out @ (if style s = ''full'' then hline else []) @ BS # ''end{tabular}'',
      prev @ (if style s = ''full'' then hline else []) @ BS # ''end{array}'')"
  by (simp add: add_end_def)

lemma click_valid:
  assumes "parseInt (rows_value f) = Some r" "parseInt (columns_value f) = Some c" "0 < r" "0 < c"
  shows "generateBtn_click f random s0 =
     (None,
      s0\<lparr>rows := Some r, columns := Some c, style := style_value f, hasHeader := header_checked f,
         autoNumber := autoNumber_checked f, fontStyle := fontStyle_value f,
         isNumeric := isNumeric_checked f, previewRows := min r 5, previewColumns := min c 5,
         totalColumns := (if autoNumber_checked f then c + 1 else c),
         totalPreviewColumns := (if autoNumber_checked f then min c 5 + 1 else min c 5),
         latexOutput := full_markup f random (random_calls s0) r c,
         latexPreview := preview_markup f random (random_calls s0) r c,
         output_value := full_markup f random (random_calls s0) r c,
         tablePreview := renderTablePreview (preview_markup f random (random_calls s0) r c),
         random_calls := random_calls s0 + (if isNumeric_checked f then nat (r * c) else 0)\<rparr>)"
proof -
  define s3 where "s3 = s0\<lparr>rows := Some r, columns := Some c, style := style_value f,
         hasHeader := header_checked f,
         autoNumber := autoNumber_checked f, fontStyle := fontStyle_value f,
         isNumeric := isNumeric_checked f, previewRows := min r 5, previewColumns := min c 5,
         totalColumns := (if autoNumber_checked f then c + 1 else c),
         totalPreviewColumns := (if autoNumber_checked f then min c 5 + 1 else min c 5)\<rparr>"
  have sel: "style s3 = style_value f" "hasHeader s3 = header_checked f"
    "autoNumber s3 = autoNumber_checked f" "fontStyle s3 = fontStyle_value f"
    "isNumeric s3 = isNumeric_checked f" "previewRows s3 = min r 5" "previewColumns s3 = min c 5"
    "totalColumns s3 = (if autoNumber_checked f then c + 1 else c)"
    "totalPreviewColumns s3 = (if autoNumber_checked f then min c 5 + 1 else min c 5)"
    "random_calls s3 = random_calls s0"
    by (simp_all add: s3_def)
  have pc: "0 < previewColumns s3" "previewColumns s3 \<le> c" and pr: "previewRows s3 \<le> r"
    using assms by (simp_all add: sel)
  have hpos: "0 < min r 5" using assms by simp
  let ?sty = "style_value f" and ?an = "autoNumber_checked f" and ?fs = "fontStyle_value f"
  let ?num = "isNumeric_checked f" and ?hdr = "header_checked f" and ?n0 = "random_calls s0"
  define FIN where "FIN = (if ?sty = ''full'' then hline else [])"
  define HD where "HD = (\<lambda>w. if ?hdr then join '' & '' (header_cells ?an ?fs w) @ row_end
                @ (if ?sty \<noteq> ''none'' then hline else []) else [])"
  define RS where "RS = (\<lambda>w h rule. concat (map (\<lambda>k. join '' & '' (row_cells ?an ?fs ?num random ?n0 c w k)
                            @ row_end @ rule ?sty h k) [1..h]))"
  define OP where "OP = (\<lambda>tc. column_spec ?sty ?an tc @ ''}\<newline>'' @ FIN)"
  define tc where "tc = (if ?an then c + 1 else c)"
  define tpc where "tpc = (if ?an then min c 5 + 1 else min c 5)"
  have e1: "add_style s3 (BS # ''begin{tabular}{'', BS # ''begin{array}{'')
              = (BS # ''begin{tabular}{'' @ OP tc, BS # ''begin{array}{'' @ OP tpc)"
    unfolding add_style_closed sel OP_def FIN_def tc_def tpc_def by simp
  have e2: "add_header s3 c (BS # ''begin{tabular}{'' @ OP tc, BS # ''begin{array}{'' @ OP tpc)
              = ((BS # ''begin{tabular}{'' @ OP tc) @ HD c, (BS # ''begin{array}{'' @ OP tpc) @ HD (min c 5))"
    unfolding add_header_closed [OF pc] sel HD_def ..
  have e3: "rows_loop s3 random r c 1
              ((BS # ''begin{tabular}{'' @ OP tc) @ HD c, (BS # ''begin{array}{'' @ OP tpc) @ HD (min c 5),
               random_calls s3)
              = (((BS # ''begin{tabular}{'' @ OP tc) @ HD c) @ RS c r loop_rule,
                 ((BS # ''begin{array}{'' @ OP tpc) @ HD (min c 5)) @ RS (min c 5) (min r 5) loop_rule,
                 ?n0 + (if ?num then nat (r * c) else 0))"
    unfolding rows_loop_closed [OF pc pr] sel row_cells_def RS_def by simp
  have A0: "RS c r loop_rule @ FIN = RS c r rule_after"
    using rows_rule [OF \<open>0 < r\<close>, of "\<lambda>k. join '' & '' (row_cells ?an ?fs ?num random ?n0 c c k)" ?sty]
    unfolding RS_def FIN_def .
  have A: "RS c r loop_rule @ FIN @ E = RS c r rule_after @ E" for E
    using arg_cong [OF A0, of "\<lambda>x. x @ E"] by simp
  have B0: "RS (min c 5) (min r 5) loop_rule @ FIN = RS (min c 5) (min r 5) rule_after"
    using rows_rule [OF hpos, of "\<lambda>k. join '' & '' (row_cells ?an ?fs ?num random ?n0 c (min c 5) k)" ?sty]
    unfolding RS_def FIN_def .
  have B: "RS (min c 5) (min r 5) loop_rule @ FIN @ E = RS (min c 5) (min r 5) rule_after @ E" for E
    using arg_cong [OF B0, of "\<lambda>x. x @ E"] by simp
  have FM: "full_markup f random ?n0 r c
              = BS # ''begin{tabular}{'' @ OP tc @ HD c @ RS c r rule_after @ BS # ''end{tabular}''"
    by (simp add: full_markup_def markup_def OP_def HD_def RS_def FIN_def tc_def)
  have PM: "preview_markup f random ?n0 r c
              = BS # ''begin{array}{'' @ OP tpc @ HD (min c 5) @ RS (min c 5) (min r 5) rule_after
                  @ BS # ''end{array}''"
    by (simp add: preview_markup_def markup_def OP_def HD_def RS_def FIN_def tpc_def)
  have e4: "add_end s3 (((BS # ''begin{tabular}{'' @ OP tc) @ HD c) @ RS c r loop_rule,
                 ((BS # ''begin{array}{'' @ OP tpc) @ HD (min c 5)) @ RS (min c 5) (min r 5) loop_rule)
              = (full_markup f random ?n0 r c, preview_markup f random ?n0 r c)"
    unfolding add_end_closed sel FIN_def [symmetric] FM PM
    by (simp add: A B)
  have "generateBtn_click f random s0 =
      (case add_style s3 (BS # ''begin{tabular}{'', BS # ''begin{array}{'') of
      (out1, prev1) \<Rightarrow>
        case add_header s3 c (out1, prev1) of
          (out2, prev2) \<Rightarrow>
            case rows_loop s3 random r c 1 (out2, prev2, random_calls s3) of
              (out3, prev3, n) \<Rightarrow>
                case add_end s3 (out3, prev3) of
                  (out4, prev4) \<Rightarrow>
                    (None,
                     s3\<lparr>latexOutput := out4, latexPreview := prev4, output_value := out4,
                        tablePreview := renderTablePreview prev4, random_calls := n\<rparr>))"
    using assms by (simp add: generateBtn_click_def Let_def s3_def)
  also have "\<dots> = (None, s3\<lparr>latexOutput := full_markup f random ?n0 r c,
         latexPreview := preview_markup f random ?n0 r c,
         output_value := full_markup f random ?n0 r c,
         tablePreview := renderTablePreview (preview_markup f random ?n0 r c),
         random_calls := ?n0 + (if ?num then nat (r * c) else 0)\<rparr>)"
    unfolding e1 prod.case e2 e3 e4 ..
  finally show ?thesis
    by (simp add: s3_def)
qed

section \<open>Counting over concatenations\<close>

lemma prefix_append_clear:
  assumes "ends_clear p s" "s \<noteq> []"
  shows "prefix p (s @ t) \<longleftrightarrow> prefix p s"
proof
  assume l: "prefix p (s @ t)"
  show "prefix p s"
  proof (rule ccontr)
    assume n: "\<not> prefix p s"
    from l have "prefix p s \<or> prefix s p" by (auto simp: prefix_append intro: prefixI)
    with n have sp: "prefix s p" by simp
    with n have "s \<noteq> p" by auto
    with sp obtain z zs where p: "p = s @ z # zs" by (metis prefixE neq_Nil_conv append_Nil2)
    have "butlast p = s @ butlast (z # zs)" unfolding p by (simp add: butlast_append)
    then have "last s \<in> set (butlast p)" using assms(2) by simp
    with assms show False by (simp add: ends_clear_def)
  qed
next
  assume "prefix p s" then show "prefix p (s @ t)" by (rule prefix_prefix)
qed

lemma occurrences_append:
  "ends_clear p s \<Longrightarrow> occurrences p (s @ t) = occurrences p s + occurrences p t"
proof (induction s)
  case Nil
  then show ?case by simp
next
  case (Cons a s)
  have ec: "ends_clear p s" using Cons.prems by (auto simp: ends_clear_def split: if_splits)
  have "prefix p ((a # s) @ t) \<longleftrightarrow> prefix p (a # s)"
    using Cons.prems by (intro prefix_append_clear) auto
  then show ?case using Cons.IH [OF ec] by simp
qed

lemma ends_clear_append:
  "ends_clear p s \<Longrightarrow> ends_clear p t \<Longrightarrow> ends_clear p (s @ t)"
  by (cases "t = []") (auto simp: ends_clear_def)

lemma occurrences_absent:
  "p \<noteq> [] \<Longrightarrow> hd p \<notin> set s \<Longrightarrow> occurrences p s = 0"
  by (induction s) (auto simp: prefix_Cons neq_Nil_conv)

lemma occurrences_concat:
  "(\<And>x. x \<in> set xs \<Longrightarrow> ends_clear p x) \<Longrightarrow>
   occurrences p (concat xs) = sum_list (map (occurrences p) xs) \<and> ends_clear p (concat xs)"
proof (induction xs)
  case Nil
  then show ?case by (simp add: ends_clear_def)
next
  case (Cons x xs)
  then show ?case by (simp add: occurrences_append ends_clear_append)
qed

section \<open>The cells of the generator\<close>

lemma plain_excludes:
  "BS \<notin> plain" "CHR ''&'' \<notin> plain" "CHR 0x0A \<notin> plain" "ch \<in> plain \<Longrightarrow> ch \<notin> set ''begind''"
  by (auto simp: plain_def)

lemma plain_members: "CHR ''-'' \<in> plain" "CHR ''.'' \<in> plain" "CHR ''0'' \<in> plain"
  by (simp_all add: plain_def)

lemma digit_char_range: "d < 10 \<Longrightarrow> digit_char d \<in> plain"
proof -
  assume "d < 10"
  then have "d \<in> {0, 1, 2, 3, 4, 5, 6, 7, 8, 9}" by auto
  then show ?thesis unfolding plain_def digit_char_def by (elim insertE emptyE) simp_all
qed

lemma nat_toString_plain: "nat_toString n \<noteq> [] \<and> set (nat_toString n) \<subseteq> plain"
proof (induction n rule: nat_toString.induct)
  case (1 n)
  show ?case
  proof (cases "n < 10")
    case True
    then show ?thesis using digit_char_range [of n] by (subst (1 2) nat_toString.simps) simp
  next
    case False
    have "n mod 10 < 10" by simp
    then have "digit_char (n mod 10) \<in> plain" by (rule digit_char_range)
    with False 1 show ?thesis by (subst (1 2) nat_toString.simps) simp
  qed
qed

lemma plain_label_ok:
  assumes "t \<noteq> []" "set t \<subseteq> plain"
  shows "label_ok t"
proof -
  from assms have "last t \<in> plain" using last_in_set by blast
  then have "last t \<notin> set ''begind''" by (rule plain_excludes)
  moreover have "BS \<notin> set t" "CHR ''&'' \<notin> set t" "CHR 0x0A \<notin> set t"
    using assms(2) plain_excludes(1-3) by blast+
  ultimately show ?thesis using assms(1) unfolding label_ok_def by blast
qed

lemma int_toString_plain: "int_toString i \<noteq> [] \<and> set (int_toString i) \<subseteq> plain"
  using nat_toString_plain [of "nat i"] nat_toString_plain [of "nat (- i)"] plain_members(1)
  by (simp add: int_toString_def)

lemma strip_zeros_subset: "set (strip_zeros ds) \<subseteq> set ds"
  by (auto simp: strip_zeros_def dest: set_dropWhileD)

lemma pad4_plain: "set (pad4 n) \<subseteq> plain"
  using nat_toString_plain [of n] plain_members(3) by (auto simp: pad4_def)

lemma number_toString_plain:
  "number_toString v \<noteq> [] \<and> set (number_toString v) \<subseteq> plain"
proof -
  have "set (strip_zeros (pad4 n)) \<subseteq> plain" for n
    using strip_zeros_subset pad4_plain by blast
  then show ?thesis
    using nat_toString_plain plain_members(2) by (simp add: number_toString_def Let_def)
qed

lemma label_ok_prepend:
  "label_ok t \<Longrightarrow> BS \<notin> set pre \<Longrightarrow> CHR ''&'' \<notin> set pre \<Longrightarrow> CHR 0x0A \<notin> set pre \<Longrightarrow>
   label_ok (pre @ t)"
  by (simp add: label_ok_def)

lemma label_ok_int: "label_ok (int_toString i)"
  using int_toString_plain by (intro plain_label_ok) auto

lemma label_ok_number: "label_ok (number_toString v)"
  using number_toString_plain by (intro plain_label_ok) auto

lemma label_ok_column: "label_ok (''Kolumna'' @ int_toString i)"
  by (rule label_ok_prepend [OF label_ok_int]) simp_all

lemma label_ok_header: "label_ok (header_label j)"
proof -
  have "label_ok ((''Nag'' @ [CHR 0xC5, CHR 0x82, CHR 0xC3, CHR 0xB3] @ ''wek '') @ int_toString (j + 1))"
    by (rule label_ok_prepend [OF label_ok_int]) simp_all
  then show ?thesis by (simp add: header_label_def)
qed

lemma label_ok_numer: "label_ok ''Numer wiersza''"
  by (simp add: label_ok_def)

lemma cell_ok_style: "label_ok t \<Longrightarrow> cell_ok (applyFontStyle t fs)"
proof -
  assume ok: "label_ok t"
  then have nb: "BS \<notin> set t" by (simp add: label_ok_def)
  have "BS \<notin> set (t @ ''}'')" using nb by simp
  then have z: "occurrences [BS, BS] (t @ ''}'') = 0" "occurrences (BS # ''begin{'') (t @ ''}'') = 0"
    "occurrences (BS # ''end{'') (t @ ''}'') = 0"
    by (simp_all add: occurrences_absent)
  have z': "occurrences [BS, BS] t = 0" "occurrences (BS # ''begin{'') t = 0"
    "occurrences (BS # ''end{'') t = 0"
    using nb by (simp_all add: occurrences_absent)
  have "t \<noteq> []" using ok by (simp add: label_ok_def)
  then have "last t \<in> set t" by (rule last_in_set)
  with nb have nl: "last t \<noteq> BS" by metis
  show ?thesis
  proof (cases "fs = ''bold''")
    case True
    then show ?thesis using ok z by (simp add: applyFontStyle_def cell_ok_def label_ok_def)
  next
    case False
    then show ?thesis using ok z' nl by (simp add: applyFontStyle_def cell_ok_def label_ok_def)
  qed
qed

lemma data_cell_ok: "cell_ok (data_cell num fs random b j)"
proof (cases num)
  case True
  then show ?thesis unfolding data_cell_def if_P [OF True]
    by (intro cell_ok_style label_ok_number)
next
  case False
  then show ?thesis unfolding data_cell_def if_not_P [OF False]
    by (intro cell_ok_style label_ok_column)
qed

lemma header_cells_ok: "cell \<in> set (header_cells an fs w) \<Longrightarrow> cell_ok cell"
  by (auto simp: header_cells_def intro!: cell_ok_style label_ok_numer label_ok_header)

lemma row_cells_ok: "cell \<in> set (row_cells an fs num random n0 c w i) \<Longrightarrow> cell_ok cell"
  by (auto simp: row_cells_def number_cell_def data_cell_ok intro!: cell_ok_style label_ok_int)

lemma safe_end_clear:
  "set (butlast P) \<subseteq> set (BS # ''begind'') \<Longrightarrow> safe_end s \<Longrightarrow> ends_clear P s"
  unfolding safe_end_def ends_clear_def by blast

lemma cell_ok_safe_end: "cell_ok cell \<Longrightarrow> safe_end cell"
  by (simp add: cell_ok_def safe_end_def)

lemma cell_ok_no_BS_pair: "cell_ok cell \<Longrightarrow> occurrences [BS, BS] cell = 0"
  and cell_ok_no_begin: "cell_ok cell \<Longrightarrow> occurrences (BS # ''begin{'') cell = 0"
  and cell_ok_no_end: "cell_ok cell \<Longrightarrow> occurrences (BS # ''end{'') cell = 0"
  by (simp_all add: cell_ok_def)

lemma safe_end_append: "safe_end s \<Longrightarrow> safe_end t \<Longrightarrow> safe_end (s @ t)"
  by (cases "t = []") (auto simp: safe_end_def)

lemma repeat_chars: "set (repeat str n) \<subseteq> set str"
  by (auto simp: repeat_def)

lemma repeat_last: "repeat str n = [] \<or> (str \<noteq> [] \<and> last (repeat str n) = last str)"
proof (cases "nat n")
  case 0
  then show ?thesis by (simp add: repeat_def)
next
  case (Suc k)
  have "replicate (Suc k) str = replicate k str @ [str]"
    by (simp add: replicate_append_same)
  then have "repeat str n = concat (replicate k str) @ str"
    by (simp add: repeat_def Suc)
  then show ?thesis by (cases "str = []") auto
qed

lemma column_spec_plain:
  "BS \<notin> set (column_spec sty an tc)" "safe_end (column_spec sty an tc)"
proof -
  have a: "BS \<notin> set (repeat ''c|'' k)" "BS \<notin> set (repeat ''c '' k)" for k
    using repeat_chars [of "''c|''" k] repeat_chars [of "''c ''" k] by auto
  have b: "safe_end (repeat ''c|'' k)" "safe_end (repeat ''c '' k)" for k
    using repeat_last [of "''c|''" k] repeat_last [of "''c ''" k] by (auto simp: safe_end_def)
  have c: "safe_end (''c|'' @ repeat ''c '' k)" "safe_end (''|'' @ repeat ''c|'' k)" for k
    by (rule safe_end_append, simp add: safe_end_def, rule b)+
  show "BS \<notin> set (column_spec sty an tc)" using a by (simp add: column_spec_def)
  show "safe_end (column_spec sty an tc)" using b c by (simp add: column_spec_def del: append.simps)
qed

lemma occurrences_join:
  assumes P: "P \<noteq> []" "hd P = BS" "set (butlast P) \<subseteq> set (BS # ''begind'')"
    and cells: "\<And>cell. cell_ok cell \<Longrightarrow> occurrences P cell = 0"
  shows "(\<And>cell. cell \<in> set cs \<Longrightarrow> cell_ok cell) \<Longrightarrow>
         occurrences P (join '' & '' cs) = 0 \<and> safe_end (join '' & '' cs)"
proof (induction "'' & ''" cs rule: join.induct)
  case 1
  then show ?case by (simp add: safe_end_def)
next
  case (2 x)
  then show ?case by (simp add: cells cell_ok_safe_end)
next
  case (3 x y ys)
  have x: "cell_ok x" using 3(2) by simp
  have rest: "occurrences P (join '' & '' (y # ys)) = 0 \<and> safe_end (join '' & '' (y # ys))"
    using 3 by simp
  have sep: "occurrences P '' & '' = 0" "safe_end '' & ''"
    by (rule occurrences_absent [OF P(1)], simp add: P(2)) (simp add: safe_end_def)
  have "occurrences P (x @ '' & '' @ join '' & '' (y # ys))
          = occurrences P x + occurrences P '' & '' + occurrences P (join '' & '' (y # ys))"
    using safe_end_clear [OF P(3) cell_ok_safe_end [OF x]] safe_end_clear [OF P(3) sep(2)]
    by (simp only: occurrences_append)
  moreover have "safe_end (x @ '' & '' @ join '' & '' (y # ys))"
    using rest sep(2) cell_ok_safe_end [OF x] by (intro safe_end_append) simp_all
  ultimately show ?case using rest sep cells [OF x] by simp
qed

lemma sum_list_const: "sum_list (map (\<lambda>x. k) xs) = length xs * (k::nat)"
  by (induction xs) simp_all

lemma occurrences_markup:
  assumes P: "P \<noteq> []" "hd P = BS" "set (butlast P) \<subseteq> set (BS # ''begind'')"
    and cells: "\<And>cell. cell_ok cell \<Longrightarrow> occurrences P cell = 0"
    and hl: "occurrences P hline = 0"
    and H: "\<And>cell. cell \<in> set H \<Longrightarrow> cell_ok cell"
    and R: "\<And>i cell. cell \<in> set (R i) \<Longrightarrow> cell_ok cell"
    and env: "BS \<notin> set env"
  shows "occurrences P (markup env sty an hdr tc h H R) =
           occurrences P (BS # ''begin{'' @ env @ ''}{'')
           + ((if hdr then 1 else 0) + nat h) * occurrences P row_end
           + occurrences P (BS # ''end{'' @ env @ ''}'')"
proof -
  note clear = safe_end_clear [OF P(3)]
  define row where "row = (\<lambda>i. join '' & '' (R i) @ row_end @ rule_after sty h i)"
  define head where "head = (if hdr then join '' & '' H @ row_end @ (if sty \<noteq> ''none'' then hline else [])
                             else [])"
  define lead where "lead = (if sty = ''full'' then hline else [])"
  have se_lit: "safe_end hline" "safe_end row_end" "safe_end ''}\<newline>''" "safe_end []"
    "safe_end (BS # ''begin{'' @ env @ ''}{'')"
    by (simp_all add: safe_end_def hline_def row_end_def)
  have occ_rule: "occurrences P (rule_after sty h i) = 0" for i
    by (simp add: rule_after_def hl)
  have se_rule: "safe_end (rule_after sty h i)" for i
    by (simp add: rule_after_def se_lit)
  have line: "occurrences P (join '' & '' cs @ row_end @ tl') = occurrences P row_end + occurrences P tl'
              \<and> safe_end (join '' & '' cs @ row_end @ tl')"
    if "\<And>cell. cell \<in> set cs \<Longrightarrow> cell_ok cell" "safe_end tl'" for cs tl'
  proof -
    from occurrences_join [OF P cells that(1)]
    have j: "occurrences P (join '' & '' cs) = 0" "safe_end (join '' & '' cs)" by simp_all
    have "occurrences P (join '' & '' cs @ row_end @ tl')
            = occurrences P (join '' & '' cs) + occurrences P row_end + occurrences P tl'"
      using clear [OF j(2)] clear [OF se_lit(2)] by (simp only: occurrences_append)
    moreover have "safe_end (join '' & '' cs @ row_end @ tl')"
      by (intro safe_end_append j(2) se_lit(2) that(2))
    ultimately show ?thesis using j(1) by simp
  qed
  have row: "occurrences P (row i) = occurrences P row_end" "safe_end (row i)" for i
    using line [of "R i" "rule_after sty h i", OF R se_rule] by (simp_all add: row_def occ_rule)
  have head: "occurrences P head = (if hdr then 1 else 0) * occurrences P row_end" "safe_end head"
  proof -
    have "safe_end (if sty \<noteq> ''none'' then hline else [])" by (simp add: se_lit)
    from line [OF H this]
    show "occurrences P head = (if hdr then 1 else 0) * occurrences P row_end" "safe_end head"
      by (simp_all add: head_def hl se_lit)
  qed
  have lead: "occurrences P lead = 0" "safe_end lead"
    by (simp_all add: lead_def hl se_lit)
  have rows: "occurrences P (concat (map row [1..h])) = nat h * occurrences P row_end"
    "safe_end (concat (map row [1..h]))"
  proof -
    have c: "ends_clear P x" if "x \<in> set (map row [1..h])" for x
      using that row(2) clear by auto
    from occurrences_concat [of "map row [1..h]" P, OF c]
    have "occurrences P (concat (map row [1..h])) = sum_list (map (occurrences P) (map row [1..h]))"
      by simp
    also have "\<dots> = sum_list (map (\<lambda>i. occurrences P row_end) [1..h])"
      by (simp add: comp_def row(1))
    also have "\<dots> = nat h * occurrences P row_end"
      by (simp add: sum_list_const)
    finally show "occurrences P (concat (map row [1..h])) = nat h * occurrences P row_end" .
    have sc: "safe_end (concat xs)" if "\<And>x. x \<in> set xs \<Longrightarrow> safe_end x" for xs
      using that by (induction xs) (simp_all add: se_lit safe_end_append)
    show "safe_end (concat (map row [1..h]))" by (rule sc) (auto simp: row(2))
  qed
  define B where "B = BS # ''begin{'' @ env @ ''}{''"
  define E where "E = BS # ''end{'' @ env @ ''}''"
  define C where "C = ''}\<newline>''"
  have spec: "occurrences P (column_spec sty an tc) = 0"
    by (rule occurrences_absent [OF P(1)]) (simp add: P(2) column_spec_plain)
  have close: "occurrences P C = 0" unfolding C_def
    by (rule occurrences_absent [OF P(1)]) (simp add: P(2))
  have m: "markup env sty an hdr tc h H R =
      B @ column_spec sty an tc @ C @ lead @ head @ concat (map row [1..h]) @ E"
    by (simp add: markup_def lead_def head_def row_def B_def C_def E_def)
  have "occurrences P (B @ column_spec sty an tc @ C @ lead @ head @ concat (map row [1..h]) @ E)
          = occurrences P B + occurrences P (column_spec sty an tc) + occurrences P C
            + occurrences P lead + occurrences P head + occurrences P (concat (map row [1..h]))
            + occurrences P E"
    using clear [OF se_lit(5)] clear [OF column_spec_plain(2)] clear [OF se_lit(3)]
      clear [OF lead(2)] clear [OF head(2)] clear [OF rows(2)]
    unfolding B_def [symmetric] C_def [symmetric]
    by (simp only: occurrences_append add.assoc)
  then show ?thesis
    unfolding m spec close lead(1) head(1) rows(1)
    unfolding B_def E_def by (simp only: add_mult_distrib add_0_right add.assoc)
qed

section \<open>Evaluation on examples\<close>

lemmas parse_simps = parseInt_def skipWhiteSpace.simps white_space_length_def white_space_def
  radix_digit_def Let_def

lemma parseInt_examples:
  "parseInt ''1'' = Some 1" "parseInt ''2'' = Some 2" "parseInt ''7'' = Some 7"
  "parseInt ''6'' = Some 6" "parseInt ''2.5'' = Some 2" "parseInt ''0'' = Some 0"
  "parseInt ''abc'' = None" "parseInt [] = None" "parseInt ''-3'' = Some (- 3)"
  by (simp_all add: parse_simps)

lemma repeat_rec: "repeat str n = (if n \<le> 0 then [] else str @ repeat str (n - 1))"
proof (cases "n \<le> 0")
  case True
  then show ?thesis by (simp add: repeat_def)
next
  case False
  then have "nat n = Suc (nat (n - 1))" by simp
  then show ?thesis using False by (simp add: repeat_def)
qed

lemmas markup_simps = full_markup_def preview_markup_def markup_def header_cells_def row_cells_def
  number_cell_def data_cell_def column_spec_def rule_after_def repeat_rec applyFontStyle_def
  header_label_def int_toString_def nat_toString.simps digit_char_def hline_def row_end_def
  number_toString_def generateRandomValue_def pad4_def strip_zeros_def Let_def draws_def
  upto.simps

lemma click_outputs:
  assumes "parseInt (rows_value f) = Some r" "parseInt (columns_value f) = Some c" "0 < r" "0 < c"
    and "generateBtn_click f random s0 = (e, s')"
  shows "e = None"
    and "latexOutput s' = full_markup f random (random_calls s0) r c"
    and "latexPreview s' = preview_markup f random (random_calls s0) r c"
    and "output_value s' = full_markup f random (random_calls s0) r c"
    and "tablePreview s' = renderTablePreview (preview_markup f random (random_calls s0) r c)"
    and "random_calls s' = random_calls s0 + (if isNumeric_checked f then nat (r * c) else 0)"
  using assms(5) unfolding click_valid [OF assms(1-4)] by auto

lemma tag_facts:
  "occurrences [BS, BS] hline = 0" "occurrences [BS, BS] row_end = 1"
  "occurrences (BS # ''begin{'') hline = 0" "occurrences (BS # ''begin{'') row_end = 0"
  "occurrences (BS # ''end{'') hline = 0" "occurrences (BS # ''end{'') row_end = 0"
  by (simp_all add: hline_def row_end_def)

lemma occurrences_full_markup:
  "occurrences [BS, BS] (full_markup f random n0 r c) = nat r + (if header_checked f then 1 else 0)"
  "occurrences (BS # ''begin{'') (full_markup f random n0 r c) = 1"
  "occurrences (BS # ''end{'') (full_markup f random n0 r c) = 1"
  unfolding full_markup_def
  by (subst occurrences_markup;
      simp add: tag_facts cell_ok_no_BS_pair cell_ok_no_begin cell_ok_no_end header_cells_ok
        row_cells_ok)+

lemma occurrences_preview_markup:
  "occurrences [BS, BS] (preview_markup f random n0 r c)
     = nat (min r 5) + (if header_checked f then 1 else 0)"
  "occurrences (BS # ''begin{'') (preview_markup f random n0 r c) = 1"
  "occurrences (BS # ''end{'') (preview_markup f random n0 r c) = 1"
  unfolding preview_markup_def
  by (subst occurrences_markup;
      simp add: tag_facts cell_ok_no_BS_pair cell_ok_no_begin cell_ok_no_end header_cells_ok
        row_cells_ok)+

lemma take_upto:
  assumes "0 \<le> w" "w \<le> c"
  shows "take (nat w) [0..c - 1] = [0..w - 1]"
proof (cases "w = c")
  case True
  then show ?thesis by simp
next
  case False
  have "[0..c - 1] = [0..w - 1] @ [w..c - 1]"
    using assms False by (intro upto_split1) auto
  moreover have "length [0..w - 1] = nat w" using assms by simp
  ultimately show ?thesis by simp
qed

lemma header_cells_take:
  assumes "0 \<le> w" "w \<le> c"
  shows "header_cells an fs w = take (nat (if an then w + 1 else w)) (header_cells an fs c)"
  using assms by (simp add: header_cells_def take_map take_upto nat_add_distrib)

lemma row_cells_take:
  assumes "0 \<le> w" "w \<le> c"
  shows "row_cells an fs num random n0 c w i
           = take (nat (if an then w + 1 else w)) (row_cells an fs num random n0 c c i)"
  using assms by (simp add: row_cells_def number_cell_def take_map take_upto nat_add_distrib)

lemma cells_length:
  "0 \<le> w \<Longrightarrow> length (header_cells an fs w) = nat w + (if an then 1 else 0)"
  "0 \<le> w \<Longrightarrow> length (row_cells an fs num random n0 c w i) = nat w + (if an then 1 else 0)"
  by (simp_all add: header_cells_def row_cells_def number_cell_def)

lemma markup_bordered:
  "sty \<in> {''full'', ''horizontal'', ''none''} \<Longrightarrow>
   markup env sty an hdr tc h H R = bordered_table env sty an hdr tc h H R"
  by (auto simp: markup_def bordered_table_def column_spec_def rule_after_def)

lemma count_join:
  "(\<And>cell. cell \<in> set cs \<Longrightarrow> CHR ''&'' \<notin> set cell) \<Longrightarrow> cs \<noteq> [] \<Longrightarrow>
   count_list (join '' & '' cs) (CHR ''&'') + 1 = length cs"
proof (induction "'' & ''" cs rule: join.induct)
  case 1
  then show ?case by simp
next
  case (2 x)
  then show ?case by (simp add: count_list_0_iff)
next
  case (3 x y ys)
  have "count_list x (CHR ''&'') = 0" using 3(2) by (simp add: count_list_0_iff)
  moreover have "count_list (join '' & '' (y # ys)) (CHR ''&'') + 1 = length (y # ys)"
    using 3 by simp
  ultimately show ?case by simp
qed

lemma cell_ok_no_amp: "cell_ok cell \<Longrightarrow> CHR ''&'' \<notin> set cell"
  by (simp add: cell_ok_def)

lemma plain_no_y: "CHR ''y'' \<notin> plain"
  by (simp add: plain_def)

lemma style_no_y: "CHR ''y'' \<in> set (applyFontStyle t fs) \<longleftrightarrow> CHR ''y'' \<in> set t"
  by (simp add: applyFontStyle_def)

lemma int_toString_no_y: "CHR ''y'' \<notin> set (int_toString i)"
  using int_toString_plain [of i] plain_no_y by blast

lemma number_toString_no_y: "CHR ''y'' \<notin> set (number_toString v)"
  using number_toString_plain [of v] plain_no_y by blast

lemma header_cells_no_y: "cell \<in> set (header_cells an fs w) \<Longrightarrow> CHR ''y'' \<notin> set cell"
  by (auto simp: header_cells_def header_label_def int_toString_no_y style_no_y)

lemma row_cells_no_y: "cell \<in> set (row_cells an fs num random n0 c w i) \<Longrightarrow> CHR ''y'' \<notin> set cell"
  by (auto simp: row_cells_def number_cell_def data_cell_def int_toString_no_y number_toString_no_y
      style_no_y split: if_splits)

lemma join_chars: "set (join sep cs) \<subseteq> set sep \<union> \<Union> (set ` set cs)"
  by (induction sep cs rule: join.induct) auto

lemma markup_no_y:
  assumes "\<And>cell. cell \<in> set H \<Longrightarrow> CHR ''y'' \<notin> set cell"
    and "\<And>i cell. cell \<in> set (R i) \<Longrightarrow> CHR ''y'' \<notin> set cell"
    and "CHR ''y'' \<notin> set env"
  shows "CHR ''y'' \<notin> set (markup env sty an hdr tc h H R)"
proof -
  have j: "CHR ''y'' \<notin> set (join '' & '' cs)" if "\<And>cell. cell \<in> set cs \<Longrightarrow> CHR ''y'' \<notin> set cell" for cs
    using join_chars [of "'' & ''" cs] that by auto
  have cs: "CHR ''y'' \<notin> set (column_spec sty an tc)"
    using repeat_chars [of "''c|''"] repeat_chars [of "''c ''"] by (auto simp: column_spec_def)
  have lit: "CHR ''y'' \<notin> set hline" "CHR ''y'' \<notin> set row_end" "CHR ''y'' \<notin> set (rule_after sty h i)" for i
    by (simp_all add: hline_def row_end_def rule_after_def)
  show ?thesis
    using j [OF assms(1)] j [OF assms(2)] cs lit assms(3)
    by (auto simp: markup_def)
qed

lemma full_markup_no_y: "CHR ''y'' \<notin> set (full_markup f random n0 r c)"
  unfolding full_markup_def
  by (rule markup_no_y) (simp_all add: header_cells_no_y row_cells_no_y)

lemma markup_ends:
  "prefix (BS # ''begin{'' @ env @ ''}{'' @ column_spec sty an tc @ ''}\<newline>'') (markup env sty an hdr tc h H R)"
  "suffix (BS # ''end{'' @ env @ ''}'') (markup env sty an hdr tc h H R)"
proof -
  show "prefix (BS # ''begin{'' @ env @ ''}{'' @ column_spec sty an tc @ ''}\<newline>'') (markup env sty an hdr tc h H R)"
    by (rule prefixI [where zs = "(if sty = ''full'' then hline else [])
     @ (if hdr then join '' & '' H @ row_end @ (if sty \<noteq> ''none'' then hline else []) else [])
     @ concat (map (\<lambda>i. join '' & '' (R i) @ row_end @ rule_after sty h i) [1..h])
     @ BS # ''end{'' @ env @ ''}''"]) (simp add: markup_def)
  show "suffix (BS # ''end{'' @ env @ ''}'') (markup env sty an hdr tc h H R)"
    by (rule suffixI [where zs = "BS # ''begin{'' @ env @ ''}{'' @ column_spec sty an tc @ ''}\<newline>''
     @ (if sty = ''full'' then hline else [])
     @ (if hdr then join '' & '' H @ row_end @ (if sty \<noteq> ''none'' then hline else []) else [])
     @ concat (map (\<lambda>i. join '' & '' (R i) @ row_end @ rule_after sty h i) [1..h])"])
       (simp add: markup_def)
qed

lemma table_form_sel:
  "rows_value (table_form r c sty hdr an fs num) = r"
  "columns_value (table_form r c sty hdr an fs num) = c"
  "style_value (table_form r c sty hdr an fs num) = sty"
  "header_checked (table_form r c sty hdr an fs num) = hdr"
  "autoNumber_checked (table_form r c sty hdr an fs num) = an"
  "fontStyle_value (table_form r c sty hdr an fs num) = fs"
  "isNumeric_checked (table_form r c sty hdr an fs num) = num"
  by (simp_all add: table_form_def)

section \<open>Further facts about the handler and the numbers\<close>

lemma click_invalid:
  assumes "parseInt (rows_value f) = None \<or> parseInt (columns_value f) = None
           \<or> (\<exists>r. parseInt (rows_value f) = Some r \<and> r \<le> 0)
           \<or> (\<exists>c. parseInt (columns_value f) = Some c \<and> c \<le> 0)"
  shows "generateBtn_click f random s0 =
     (Some InvalidConfigError,
      s0\<lparr>rows := parseInt (rows_value f), columns := parseInt (columns_value f),
         style := style_value f, hasHeader := header_checked f,
         autoNumber := autoNumber_checked f, fontStyle := fontStyle_value f,
         isNumeric := isNumeric_checked f\<rparr>)"
  using assms
  by (cases "parseInt (rows_value f)"; cases "parseInt (columns_value f)")
     (auto simp: generateBtn_click_def Let_def)

lemma plain_style:
  assumes "fontStyle_value f \<noteq> ''bold''"
  shows "full_markup f random n0 r c = full_markup (f\<lparr>fontStyle_value := ''normal''\<rparr>) random n0 r c"
    and "preview_markup f random n0 r c
           = preview_markup (f\<lparr>fontStyle_value := ''normal''\<rparr>) random n0 r c"
proof -
  have "row_cells an (fontStyle_value f) num random n0 c w = row_cells an ''normal'' num random n0 c w"
    for an num w
    using assms
    by (intro ext) (simp add: row_cells_def number_cell_def data_cell_def applyFontStyle_def)
  then show "full_markup f random n0 r c = full_markup (f\<lparr>fontStyle_value := ''normal''\<rparr>) random n0 r c"
    and "preview_markup f random n0 r c
           = preview_markup (f\<lparr>fontStyle_value := ''normal''\<rparr>) random n0 r c"
    using assms
    by (simp_all add: full_markup_def preview_markup_def header_cells_def applyFontStyle_def)
qed

lemma default_border:
  assumes "style_value f \<noteq> ''full''" "style_value f \<noteq> ''horizontal''" "\<not> header_checked f"
  shows "full_markup f random n0 r c = full_markup (f\<lparr>style_value := ''none''\<rparr>) random n0 r c"
    and "preview_markup f random n0 r c = preview_markup (f\<lparr>style_value := ''none''\<rparr>) random n0 r c"
  using assms
  by (simp_all add: full_markup_def preview_markup_def markup_def column_spec_def rule_after_def)

lemma markup_rows_cong:
  "(\<And>i. 1 \<le> i \<Longrightarrow> i \<le> h \<Longrightarrow> R i = R' i) \<Longrightarrow>
   markup env sty an hdr tc h H R = markup env sty an hdr tc h H R'"
proof -
  assume eq: "\<And>i. 1 \<le> i \<Longrightarrow> i \<le> h \<Longrightarrow> R i = R' i"
  have "map (\<lambda>i. join '' & '' (R i) @ row_end @ rule_after sty h i) [1..h]
          = map (\<lambda>i. join '' & '' (R' i) @ row_end @ rule_after sty h i) [1..h]"
    by (rule map_cong) (simp_all add: eq)
  then show ?thesis unfolding markup_def by (rule arg_cong)
qed

lemma row_cells_draws:
  assumes "num \<Longrightarrow> \<forall>k<nat (r * c). random (n0 + k) = random2 (m0 + k)"
    and "1 \<le> i" "i \<le> r" "w \<le> c"
  shows "row_cells an fs num random n0 c w i = row_cells an fs num random2 m0 c w i"
proof -
  have "data_cell num fs random (int n0 + (i - 1) * c) j
          = data_cell num fs random2 (int m0 + (i - 1) * c) j"
    if j: "0 \<le> j" "j \<le> w - 1" for j
  proof (cases num)
    case False
    then show ?thesis by (simp add: data_cell_def)
  next
    case True
    have cpos: "0 \<le> c" using j assms(4) by linarith
    have lo: "0 \<le> (i - 1) * c" using assms(2) cpos by simp
    have "(i - 1) * c \<le> (r - 1) * c" using assms(3) cpos by (intro mult_right_mono) simp_all
    moreover have "(r - 1) * c = r * c - c" by (simp add: algebra_simps)
    ultimately have hi: "(i - 1) * c + j < r * c" using j assms(4) by linarith
    let ?k = "nat ((i - 1) * c + j)"
    have k: "?k < nat (r * c)" using lo j(1) hi by simp
    have "nat (int n0 + (i - 1) * c + j) = n0 + ?k" "nat (int m0 + (i - 1) * c + j) = m0 + ?k"
      using lo j(1) by (simp_all add: nat_add_distrib add.assoc)
    then show ?thesis using assms(1) [OF True] k by (simp add: data_cell_def True)
  qed
  then have "map (data_cell num fs random (int n0 + (i - 1) * c)) [0..w - 1]
               = map (data_cell num fs random2 (int m0 + (i - 1) * c)) [0..w - 1]"
    by (intro map_cong) simp_all
  then show ?thesis by (simp add: row_cells_def)
qed

lemma markup_draws:
  assumes "isNumeric_checked f \<Longrightarrow> \<forall>k<nat (r * c). random (n0 + k) = random2 (m0 + k)"
  shows "full_markup f random n0 r c = full_markup f random2 m0 r c"
    and "preview_markup f random n0 r c = preview_markup f random2 m0 r c"
proof -
  show "full_markup f random n0 r c = full_markup f random2 m0 r c"
    unfolding full_markup_def
  proof (rule markup_rows_cong)
    fix i :: int
    assume "1 \<le> i" "i \<le> r"
    then show "row_cells (autoNumber_checked f) (fontStyle_value f) (isNumeric_checked f) random n0 c c i
        = row_cells (autoNumber_checked f) (fontStyle_value f) (isNumeric_checked f) random2 m0 c c i"
      by (intro row_cells_draws [OF assms]) simp_all
  qed
  show "preview_markup f random n0 r c = preview_markup f random2 m0 r c"
    unfolding preview_markup_def
  proof (rule markup_rows_cong)
    fix i :: int
    assume "1 \<le> i" "i \<le> min r 5"
    then show "row_cells (autoNumber_checked f) (fontStyle_value f) (isNumeric_checked f) random n0 c
          (min c 5) i
        = row_cells (autoNumber_checked f) (fontStyle_value f) (isNumeric_checked f) random2 m0 c
          (min c 5) i"
      by (intro row_cells_draws [OF assms]) simp_all
  qed
qed

lemma digit_char_digit: "d < 10 \<Longrightarrow> digit_char d \<in> digits"
proof -
  assume "d < 10"
  then have "d \<in> {0, 1, 2, 3, 4, 5, 6, 7, 8, 9}" by auto
  then show ?thesis unfolding digits_def digit_char_def by (elim insertE emptyE) simp_all
qed

lemma digit_char_zero: "d < 10 \<Longrightarrow> d \<noteq> 0 \<Longrightarrow> digit_char d \<noteq> CHR ''0''"
proof -
  assume "d < 10" "d \<noteq> 0"
  then have "d \<in> {1, 2, 3, 4, 5, 6, 7, 8, 9}" by auto
  then show ?thesis unfolding digit_char_def by (elim insertE emptyE) simp_all
qed

lemma nat_toString_digits: "set (nat_toString n) \<subseteq> digits"
proof (induction n rule: nat_toString.induct)
  case (1 n)
  show ?case
  proof (cases "n < 10")
    case True
    then show ?thesis using digit_char_digit [of n] by (subst nat_toString.simps) simp
  next
    case False
    have "digit_char (n mod 10) \<in> digits" by (rule digit_char_digit) simp
    with False 1 show ?thesis by (subst nat_toString.simps) simp
  qed
qed

lemma nat_toString_length: "0 < k \<Longrightarrow> n < 10 ^ k \<Longrightarrow> length (nat_toString n) \<le> k"
proof (induction n arbitrary: k rule: nat_toString.induct)
  case (1 n)
  show ?case
  proof (cases "n < 10")
    case True
    then show ?thesis using 1(2) by (subst nat_toString.simps) simp
  next
    case False
    obtain k' where k: "k = Suc k'" using 1(2) by (cases k) auto
    have "k' \<noteq> 0" using False 1(3) k by (cases k') auto
    moreover have "n div 10 < 10 ^ k'" using 1(3) k by (simp add: less_mult_imp_div_less mult.commute)
    ultimately have "length (nat_toString (n div 10)) \<le> k'" using 1(1) [OF False, of k'] by simp
    then show ?thesis using False k by (subst nat_toString.simps) simp
  qed
qed

lemma nat_toString_nonzero: "0 < n \<Longrightarrow> \<exists>ch\<in>set (nat_toString n). ch \<noteq> CHR ''0''"
proof (induction n rule: nat_toString.induct)
  case (1 n)
  show ?case
  proof (cases "n < 10")
    case True
    then show ?thesis using digit_char_zero [of n] 1(2) by (subst nat_toString.simps) simp
  next
    case False
    then have "0 < n div 10" by simp
    with 1(1) [OF False] False show ?thesis by (subst nat_toString.simps) auto
  qed
qed

lemma fraction_digits:
  assumes "0 < n" "n < 10000"
  shows "strip_zeros (pad4 n) \<noteq> []" "length (strip_zeros (pad4 n)) \<le> 4"
    "set (strip_zeros (pad4 n)) \<subseteq> digits" "last (strip_zeros (pad4 n)) \<noteq> CHR ''0''"
proof -
  have len: "length (nat_toString n) \<le> 4" using nat_toString_length [of 4 n] assms(2) by simp
  then have l4: "length (pad4 n) = 4" by (simp add: pad4_def)
  have z: "CHR ''0'' \<in> digits" by (simp add: digits_def)
  have dg: "set (pad4 n) \<subseteq> digits" using nat_toString_digits [of n] z by (auto simp: pad4_def)
  obtain ch where ch: "ch \<in> set (pad4 n)" "ch \<noteq> CHR ''0''"
    using nat_toString_nonzero [OF assms(1)] by (auto simp: pad4_def)
  let ?d = "dropWhile (\<lambda>ch. ch = CHR ''0'') (rev (pad4 n))"
  have ne: "?d \<noteq> []" using ch by (auto simp: dropWhile_eq_Nil_conv)
  then show "strip_zeros (pad4 n) \<noteq> []" by (simp add: strip_zeros_def)
  have "length ?d \<le> length (rev (pad4 n))" by (rule length_dropWhile_le)
  then show "length (strip_zeros (pad4 n)) \<le> 4" using l4 by (simp add: strip_zeros_def)
  show "set (strip_zeros (pad4 n)) \<subseteq> digits" using strip_zeros_subset [of "pad4 n"] dg by blast
  have "hd ?d \<noteq> CHR ''0''" using hd_dropWhile [OF ne] by simp
  then show "last (strip_zeros (pad4 n)) \<noteq> CHR ''0''"
    using ne by (simp add: strip_zeros_def last_rev)
qed

lemma number_toString_grid:
  "number_toString (real n / 10000) =
     nat_toString (n div 10000)
     @ (if n mod 10000 = 0 then [] else ''.'' @ strip_zeros (pad4 (n mod 10000)))"
  by (simp add: number_toString_def Let_def)

lemma generateRandomValue_grid:
  assumes "0 \<le> x" "x < 1"
  obtains n :: nat where "n \<le> 10000" "generateRandomValue x = real n / 10000"
    "real n \<le> x * 10000 + 1 / 2" "x * 10000 + 1 / 2 < real n + 1"
proof -
  let ?m = "\<lfloor>x * 10000 + 1 / 2\<rfloor>"
  have lo: "0 \<le> ?m" using assms(1) by simp
  have "x * 10000 + 1 / 2 < 10001" using assms(2) by simp
  then have hi: "?m \<le> 10000" by linarith
  have a: "real_of_int ?m \<le> x * 10000 + 1 / 2" "x * 10000 + 1 / 2 < real_of_int ?m + 1"
    by linarith+
  show ?thesis
  proof (rule that [of "nat ?m"])
    show "nat ?m \<le> 10000" using hi lo by linarith
    show "generateRandomValue x = real (nat ?m) / 10000"
      using lo by (simp add: generateRandomValue_def)
    show "real (nat ?m) \<le> x * 10000 + 1 / 2" using lo a(1) by simp
    show "x * 10000 + 1 / 2 < real (nat ?m) + 1" using lo a(2) by simp
  qed
qed

text \<open>
  The text of a value \<open>n / 10000\<close> reads back as that value, and the rounding of a draw
  from \<open>[0, 1)\<close> in full.
\<close>

lemma digit_of_digit_char: "d < 10 \<Longrightarrow> digit_of (digit_char d) = d"
proof -
  assume "d < 10"
  then have "d \<in> {0, 1, 2, 3, 4, 5, 6, 7, 8, 9}" by auto
  then show ?thesis unfolding digit_of_def digit_char_def by (elim insertE emptyE) simp_all
qed

lemma digits_value_snoc: "digits_value (ds @ [ch]) = digits_value ds * 10 + digit_of ch"
  by (simp add: digits_value_def)

lemma digits_value_nat_toString: "digits_value (nat_toString n) = n"
proof (induction n rule: nat_toString.induct)
  case (1 n)
  show ?case
  proof (cases "n < 10")
    case True
    then have "nat_toString n = [digit_char n]" by (simp add: nat_toString.simps)
    then show ?thesis using digit_of_digit_char [OF True] by (simp add: digits_value_def)
  next
    case False
    then have "nat_toString n = nat_toString (n div 10) @ [digit_char (n mod 10)]"
      by (subst nat_toString.simps) simp
    then show ?thesis
      using 1 [OF False] digit_of_digit_char [of "n mod 10"] by (simp add: digits_value_snoc)
  qed
qed

lemma digits_value_zeros_left: "digits_value (replicate k (CHR ''0'') @ ds) = digits_value ds"
  by (induction k) (simp_all add: digits_value_def digit_of_def)

lemma digits_value_zeros_right:
  "digits_value (ds @ replicate z (CHR ''0'')) = digits_value ds * 10 ^ z"
proof -
  have "foldl (\<lambda>a ch. a * 10 + digit_of ch) a (replicate z (CHR ''0'')) = a * 10 ^ z" for a
    by (induction z arbitrary: a) (simp_all add: digit_of_def)
  then show ?thesis by (simp add: digits_value_def)
qed

lemma strip_zeros_split:
  "\<exists>z. ds = strip_zeros ds @ replicate z (CHR ''0'') \<and> length ds = length (strip_zeros ds) + z"
proof -
  let ?P = "\<lambda>ch. ch = CHR ''0''"
  let ?t = "takeWhile ?P (rev ds)"
  have "\<forall>ch\<in>set ?t. ch = CHR ''0''" by (auto dest: set_takeWhileD)
  then have t: "replicate (length ?t) (CHR ''0'') = ?t" by (rule replicate_length_same)
  have "ds = rev (rev ds)" by simp
  also have "\<dots> = rev (?t @ dropWhile ?P (rev ds))" by (simp only: takeWhile_dropWhile_id)
  also have "\<dots> = strip_zeros ds @ rev ?t" by (simp only: rev_append strip_zeros_def)
  finally have "ds = strip_zeros ds @ rev ?t" .
  also have "rev ?t = replicate (length ?t) (CHR ''0'')" by (subst t [symmetric]) simp
  finally have a: "ds = strip_zeros ds @ replicate (length ?t) (CHR ''0'')" .
  have "length ds = length (strip_zeros ds @ replicate (length ?t) (CHR ''0''))"
    using a by (rule arg_cong)
  then have "length ds = length (strip_zeros ds) + length ?t" by simp
  with a show ?thesis by blast
qed

lemma fraction_value:
  assumes "n < 10000"
  shows "real (digits_value (strip_zeros (pad4 n))) / 10 ^ length (strip_zeros (pad4 n))
         = real n / 10000"
proof -
  have "length (nat_toString n) \<le> 4" using nat_toString_length [of 4 n] assms by simp
  then have l4: "length (pad4 n) = 4" by (simp add: pad4_def)
  have v: "digits_value (pad4 n) = n"
    unfolding pad4_def digits_value_zeros_left by (rule digits_value_nat_toString)
  obtain z where z: "pad4 n = strip_zeros (pad4 n) @ replicate z (CHR ''0'')"
    "length (pad4 n) = length (strip_zeros (pad4 n)) + z"
    using strip_zeros_split [of "pad4 n"] by blast
  let ?ds = "strip_zeros (pad4 n)"
  have "digits_value (pad4 n) = digits_value ?ds * 10 ^ z"
    by (subst z(1)) (rule digits_value_zeros_right)
  with v have "n = digits_value ?ds * 10 ^ z" by simp
  then have "real n = real (digits_value ?ds * 10 ^ z)" by (rule arg_cong)
  then have n: "real n = real (digits_value ?ds) * 10 ^ z" by simp
  have "(10000::real) = 10 ^ (length ?ds + z)" using z(2) l4 by simp
  then have e: "(10000::real) = 10 ^ length ?ds * 10 ^ z" by (simp add: power_add)
  have "real n / 10000 = (real (digits_value ?ds) * 10 ^ z) / (10 ^ length ?ds * 10 ^ z)"
    by (subst e, subst n) (rule refl)
  also have "\<dots> = real (digits_value ?ds) / 10 ^ length ?ds" by simp
  finally show ?thesis by (rule sym)
qed

lemma decimal_value_fraction:
  "decimal_value (''0.'' @ ds) = real (digits_value ds) / 10 ^ length ds"
  by (simp add: decimal_value_def digits_value_def digit_of_def)

lemma decimal_value_number_toString:
  assumes "n \<le> 10000"
  shows "decimal_value (number_toString (real n / 10000)) = real n / 10000"
proof -
  consider "n = 0" | "n = 10000" | "0 < n" "n < 10000" using assms by linarith
  then show ?thesis
  proof cases
    case 1
    then show ?thesis
      unfolding number_toString_grid
      by (simp add: nat_toString.simps digit_char_def decimal_value_def digits_value_def
          digit_of_def)
  next
    case 2
    then show ?thesis
      unfolding number_toString_grid
      by (simp add: nat_toString.simps digit_char_def decimal_value_def digits_value_def
          digit_of_def)
  next
    case 3
    then have "number_toString (real n / 10000) = ''0.'' @ strip_zeros (pad4 n)"
      unfolding number_toString_grid by (simp add: nat_toString.simps digit_char_def)
    then show ?thesis
      using decimal_value_fraction [of "strip_zeros (pad4 n)"] fraction_value [OF 3(2)]
      by simp
  qed
qed


lemma rounded_draw:
  assumes "0 \<le> x" "x < 1"
  shows "\<exists>n::nat. n \<le> 10000 \<and> generateRandomValue x = real n / 10000
           \<and> real n \<le> x * 10000 + 1 / 2 \<and> x * 10000 + 1 / 2 < real n + 1"
    and "generateRandomValue x = real m / 10000
           \<longleftrightarrow> real m \<le> x * 10000 + 1 / 2 \<and> x * 10000 + 1 / 2 < real m + 1"
    and "0 \<le> generateRandomValue x" and "generateRandomValue x \<le> 1"
    and "\<bar>generateRandomValue x - x\<bar> \<le> 1 / 20000"
    and "generateRandomValue x = 1 \<longleftrightarrow> 9999.5 / 10000 \<le> x"
    and "decimal_value (number_toString (generateRandomValue x)) = generateRandomValue x"
    and "number_toString (generateRandomValue x) = ''0''
          \<or> number_toString (generateRandomValue x) = ''1''
          \<or> (\<exists>ds. number_toString (generateRandomValue x) = ''0.'' @ ds \<and> ds \<noteq> []
                 \<and> length ds \<le> 4 \<and> set ds \<subseteq> digits \<and> last ds \<noteq> CHR ''0'')"
proof -
  from generateRandomValue_grid [OF assms] obtain n :: nat
    where n: "n \<le> 10000" "generateRandomValue x = real n / 10000"
      "real n \<le> x * 10000 + 1 / 2" "x * 10000 + 1 / 2 < real n + 1"
    by blast
  from n show "\<exists>n::nat. n \<le> 10000 \<and> generateRandomValue x = real n / 10000
           \<and> real n \<le> x * 10000 + 1 / 2 \<and> x * 10000 + 1 / 2 < real n + 1"
    by blast
  show "generateRandomValue x = real m / 10000
           \<longleftrightarrow> real m \<le> x * 10000 + 1 / 2 \<and> x * 10000 + 1 / 2 < real m + 1"
  proof
    assume "generateRandomValue x = real m / 10000"
    then have "real m = real n" by (simp add: n(2))
    with n(3,4) show "real m \<le> x * 10000 + 1 / 2 \<and> x * 10000 + 1 / 2 < real m + 1" by simp
  next
    assume "real m \<le> x * 10000 + 1 / 2 \<and> x * 10000 + 1 / 2 < real m + 1"
    with n(3,4) have "real m < real n + 1" "real n < real m + 1" by linarith+
    then have "m = n" by linarith
    then show "generateRandomValue x = real m / 10000" by (simp add: n(2))
  qed
  show "0 \<le> generateRandomValue x" "generateRandomValue x \<le> 1"
    using n(1) by (simp_all add: n(2))
  show "\<bar>generateRandomValue x - x\<bar> \<le> 1 / 20000"
  proof -
    have "real n / 10000 - x \<le> 1 / 20000" "x - real n / 10000 \<le> 1 / 20000"
      using n(3,4) by (simp_all add: field_simps)
    then show ?thesis unfolding n(2) by (intro abs_leI) linarith+
  qed
  show "generateRandomValue x = 1 \<longleftrightarrow> 9999.5 / 10000 \<le> x"
  proof
    assume "generateRandomValue x = 1"
    then have "real n = 10000" by (simp add: n(2))
    with n(3) show "9999.5 / 10000 \<le> x" by simp
  next
    assume "9999.5 / 10000 \<le> x"
    then have "real n + 1 > 10000" using n(4) by simp
    then have "n \<ge> 10000" by linarith
    with n(1) have "n = 10000" by simp
    then show "generateRandomValue x = 1" by (simp add: n(2))
  qed
  show "decimal_value (number_toString (generateRandomValue x)) = generateRandomValue x"
    unfolding n(2) by (rule decimal_value_number_toString [OF n(1)])
  consider "n = 0" | "n = 10000" | "0 < n" "n < 10000" using n(1) by linarith
  then show "number_toString (generateRandomValue x) = ''0''
          \<or> number_toString (generateRandomValue x) = ''1''
          \<or> (\<exists>ds. number_toString (generateRandomValue x) = ''0.'' @ ds \<and> ds \<noteq> []
                 \<and> length ds \<le> 4 \<and> set ds \<subseteq> digits \<and> last ds \<noteq> CHR ''0'')"
  proof cases
    case 1
    then show ?thesis
      unfolding n(2) number_toString_grid by (simp add: nat_toString.simps digit_char_def)
  next
    case 2
    then show ?thesis
      unfolding n(2) number_toString_grid by (simp add: nat_toString.simps digit_char_def)
  next
    case 3
    then have "number_toString (generateRandomValue x) = ''0.'' @ strip_zeros (pad4 n)"
      unfolding n(2) number_toString_grid by (simp add: nat_toString.simps digit_char_def)
    then show ?thesis using fraction_digits [OF 3] by blast
  qed
qed

section \<open>The claims\<close>

text \<open>
  In every theorem below, \<open>r\<close> and \<open>c\<close> are the counts parsed from the form, a valid
  configuration is one where both are positive, and \<open>(e, s')\<close> is what the handler
  returns: the error, if any, and the page afterwards.
\<close>

text \<open>
  C1, as amended: for every valid configuration without numeric cells, the full output is
  the table whose data cell in column \<open>j\<close> (0-based) of every row is the label
  \<^verbatim>\<open>Kolumna\<close> followed directly by \<open>j + 1\<close>, no space between them, and whose header
  cell number \<open>j + 1\<close> is the label \<^verbatim>\<open>Nag\u0142\u00f3wek\<close>, a space and \<open>j + 1\<close>;
  each is passed through \<open>applyFontStyle\<close>, so it is wrapped in the bold directive when
  the font style is \<open>bold\<close>. The specification names the labels \<^verbatim>\<open>Column 1\<close> and
  \<^verbatim>\<open>Header 1\<close>, which the output never contains.
\<close>

theorem placeholder_labels:
  assumes "parseInt (rows_value f) = Some r" "parseInt (columns_value f) = Some c" "0 < r" "0 < c"
    and "generateBtn_click f random s0 = (e, s')"
    and "\<not> isNumeric_checked f"
  shows "latexOutput s' =
           markup ''tabular'' (style_value f) (autoNumber_checked f) (header_checked f)
             (if autoNumber_checked f then c + 1 else c) r
             ((if autoNumber_checked f then [applyFontStyle ''Numer wiersza'' (fontStyle_value f)]
               else [])
              @ map (\<lambda>j. applyFontStyle
                       (''Nag'' @ [CHR 0xC5, CHR 0x82, CHR 0xC3, CHR 0xB3] @ ''wek ''
                          @ int_toString (j + 1)) (fontStyle_value f)) [0..c - 1])
             (\<lambda>i. (if autoNumber_checked f then [applyFontStyle (int_toString i) (fontStyle_value f)]
                   else [])
                  @ map (\<lambda>j. applyFontStyle (''Kolumna'' @ int_toString (j + 1)) (fontStyle_value f))
                      [0..c - 1])"
  unfolding click_outputs(2) [OF assms(1-5)] full_markup_def header_cells_def row_cells_def
    number_cell_def data_cell_def header_label_def
  using assms(6) by simp

theorem placeholder_labels_witness:
  "parseInt ''2'' = Some 2 \<and> (0::int) < 2
   \<and> \<not> isNumeric_checked (table_form ''2'' ''2'' ''none'' True False ''normal'' False)
   \<and> latexOutput (snd (generateBtn_click
         (table_form ''2'' ''2'' ''none'' True False ''normal'' False) (draws []) page_loaded))
       = BS # ''begin{tabular}{c c }\<newline>Nag'' @ [CHR 0xC5, CHR 0x82, CHR 0xC3, CHR 0xB3]
           @ ''wek 1 & Nag'' @ [CHR 0xC5, CHR 0x82, CHR 0xC3, CHR 0xB3] @ ''wek 2 '' @ [BS, BS]
           @ ''\<newline>Kolumna1 & Kolumna2 '' @ [BS, BS] @ ''\<newline>Kolumna1 & Kolumna2 '' @ [BS, BS]
           @ ''\<newline>'' @ BS # ''end{tabular}''"
  using placeholder_labels [of "table_form ''2'' ''2'' ''none'' True False ''normal'' False" 2 2
      "draws []" page_loaded
      "fst (generateBtn_click
         (table_form ''2'' ''2'' ''none'' True False ''normal'' False) (draws []) page_loaded)"
      "snd (generateBtn_click
         (table_form ''2'' ''2'' ''none'' True False ''normal'' False) (draws []) page_loaded)"]
  by (simp add: parseInt_examples table_form_sel markup_simps)

theorem placeholder_labels_counterexample:
  "latexOutput (snd (generateBtn_click
      (table_form ''1'' ''2'' ''none'' True False ''normal'' False) (draws []) page_loaded))
    = BS # ''begin{tabular}{c c }\<newline>Nag'' @ [CHR 0xC5, CHR 0x82, CHR 0xC3, CHR 0xB3]
        @ ''wek 1 & Nag'' @ [CHR 0xC5, CHR 0x82, CHR 0xC3, CHR 0xB3] @ ''wek 2 '' @ [BS, BS]
        @ ''\<newline>Kolumna1 & Kolumna2 '' @ [BS, BS] @ ''\<newline>'' @ BS # ''end{tabular}''
   \<and> latexOutput (snd (generateBtn_click
      (table_form ''1'' ''2'' ''none'' True False ''normal'' False) (draws []) page_loaded))
    \<noteq> BS # ''begin{tabular}{c c }\<newline>Header 1 & Header 2 '' @ [BS, BS]
        @ ''\<newline>Column 1 & Column 2 '' @ [BS, BS] @ ''\<newline>'' @ BS # ''end{tabular}''"
  by (subst (1 2) click_valid [where r = 1 and c = 2])
     (simp_all add: parseInt_examples table_form_sel markup_simps)

text \<open>
  C2, as amended: generation fails with the error exactly when \<open>parseInt\<close> of the rows
  field or of the columns field is NaN or not positive, and then the output, the preview,
  the two generated strings and the random source are left as they were. A field that
  starts with a positive integer is accepted whatever follows the digits: \<^verbatim>\<open>2.5\<close> is
  read as 2, so a count that is not an integer does not fail, as the specification has it.
\<close>

theorem invalid_config:
  assumes "generateBtn_click f random s0 = (e, s')"
  shows "(e = Some InvalidConfigError \<longleftrightarrow>
            parseInt (rows_value f) = None \<or> parseInt (columns_value f) = None
            \<or> (\<exists>r. parseInt (rows_value f) = Some r \<and> r \<le> 0)
            \<or> (\<exists>c. parseInt (columns_value f) = Some c \<and> c \<le> 0))
       \<and> (e = Some InvalidConfigError \<longrightarrow>
            output_value s' = output_value s0 \<and> tablePreview s' = tablePreview s0
            \<and> latexOutput s' = latexOutput s0 \<and> latexPreview s' = latexPreview s0
            \<and> random_calls s' = random_calls s0)"
proof (cases "parseInt (rows_value f) = None \<or> parseInt (columns_value f) = None
           \<or> (\<exists>r. parseInt (rows_value f) = Some r \<and> r \<le> 0)
           \<or> (\<exists>c. parseInt (columns_value f) = Some c \<and> c \<le> 0)")
  case True
  from assms show ?thesis
    unfolding click_invalid [OF True] using True by auto
next
  case False
  then obtain r c where v: "parseInt (rows_value f) = Some r" "parseInt (columns_value f) = Some c"
    "0 < r" "0 < c"
    by (cases "parseInt (rows_value f)"; cases "parseInt (columns_value f)") (auto simp: not_le)
  from click_outputs(1) [OF v assms] False show ?thesis by simp
qed

theorem invalid_config_witness:
  "fst (generateBtn_click (table_form ''0'' ''3'' ''full'' True True ''bold'' True) (draws [])
          (page_loaded\<lparr>output_value := ''old'', tablePreview := ''old preview''\<rparr>))
     = Some InvalidConfigError
   \<and> (\<exists>r. parseInt ''0'' = Some r \<and> r \<le> 0)
   \<and> output_value (snd (generateBtn_click (table_form ''0'' ''3'' ''full'' True True ''bold'' True)
          (draws []) (page_loaded\<lparr>output_value := ''old'', tablePreview := ''old preview''\<rparr>)))
     = ''old''
   \<and> tablePreview (snd (generateBtn_click (table_form ''0'' ''3'' ''full'' True True ''bold'' True)
          (draws []) (page_loaded\<lparr>output_value := ''old'', tablePreview := ''old preview''\<rparr>)))
     = ''old preview''"
  using invalid_config [of "table_form ''0'' ''3'' ''full'' True True ''bold'' True" "draws []"
      "page_loaded\<lparr>output_value := ''old'', tablePreview := ''old preview''\<rparr>"
      "fst (generateBtn_click (table_form ''0'' ''3'' ''full'' True True ''bold'' True) (draws [])
          (page_loaded\<lparr>output_value := ''old'', tablePreview := ''old preview''\<rparr>))"
      "snd (generateBtn_click (table_form ''0'' ''3'' ''full'' True True ''bold'' True) (draws [])
          (page_loaded\<lparr>output_value := ''old'', tablePreview := ''old preview''\<rparr>))"]
  by (simp add: parseInt_examples table_form_sel)

theorem invalid_config_counterexample:
  "fst (generateBtn_click (table_form ''2.5'' ''1'' ''none'' False False ''normal'' False) (draws [])
          (page_loaded\<lparr>output_value := ''old''\<rparr>)) = None
   \<and> output_value (snd (generateBtn_click
          (table_form ''2.5'' ''1'' ''none'' False False ''normal'' False) (draws [])
          (page_loaded\<lparr>output_value := ''old''\<rparr>)))
     = BS # ''begin{tabular}{c }\<newline>Kolumna1 '' @ [BS, BS] @ ''\<newline>Kolumna1 '' @ [BS, BS]
         @ ''\<newline>'' @ BS # ''end{tabular}''"
  by (subst (1 2) click_valid [where r = 2 and c = 1])
     (simp_all add: parseInt_examples table_form_sel markup_simps)

text \<open>
  C3, as amended: for every valid configuration with numeric cells, the data cell in row
  \<open>i\<close> (1-based) and column \<open>j\<close> (0-based) of the full output, and of the preview where it
  has that cell, is the styled text of the value made from draw number \<open>(i - 1) * c + j\<close>
  of the call. A draw is what \<^verbatim>\<open>Math.random\<close> returns, a uniform pseudo-random float
  \<open>x\<close> with \<open>0 \<le> x < 1\<close>; the theorem holds for every sequence of such draws. The value
  \<open>v\<close> is \<open>x\<close> rounded to the nearest multiple of \<open>1/10000\<close>, half up: \<open>v = n / 10000\<close>
  exactly for the \<open>n\<close> with \<open>n \<le> 10000 x + 1/2 < n + 1\<close>, so every value strictly between
  0 and 1 comes from draws in an interval of the same length \<open>1/10000\<close>. The value lies in
  the closed interval from 0 to 1 and is 1 exactly when \<open>x \<ge> 0.99995\<close>, so it is not
  always below 1 as the specification has it. Its text denotes the value itself and has
  no trailing zero: it is \<^verbatim>\<open>0\<close>, \<^verbatim>\<open>1\<close> or \<^verbatim>\<open>0.\<close> followed by one to four
  digits the last of which is not 0.
\<close>

theorem numeric_cell_values:
  assumes "parseInt (rows_value f) = Some r" "parseInt (columns_value f) = Some c" "0 < r" "0 < c"
    and "generateBtn_click f random s0 = (e, s')"
    and "isNumeric_checked f"
    and "\<forall>k. 0 \<le> random k \<and> random k < 1"
  shows "latexOutput s' =
           markup ''tabular'' (style_value f) (autoNumber_checked f) (header_checked f)
             (if autoNumber_checked f then c + 1 else c) r
             (header_cells (autoNumber_checked f) (fontStyle_value f) c)
             (\<lambda>i. number_cell (autoNumber_checked f) (fontStyle_value f) i
                  @ map (\<lambda>j. applyFontStyle
                               (number_toString (generateRandomValue
                                  (random (nat (int (random_calls s0) + (i - 1) * c + j)))))
                               (fontStyle_value f))
                      [0..c - 1])
       \<and> latexPreview s' =
           markup ''array'' (style_value f) (autoNumber_checked f) (header_checked f)
             (if autoNumber_checked f then min c 5 + 1 else min c 5) (min r 5)
             (header_cells (autoNumber_checked f) (fontStyle_value f) (min c 5))
             (\<lambda>i. number_cell (autoNumber_checked f) (fontStyle_value f) i
                  @ map (\<lambda>j. applyFontStyle
                               (number_toString (generateRandomValue
                                  (random (nat (int (random_calls s0) + (i - 1) * c + j)))))
                               (fontStyle_value f))
                      [0..min c 5 - 1])
       \<and> (\<forall>i j. let x = random (nat (int (random_calls s0) + (i - 1) * c + j));
                     v = generateRandomValue x;
                     t = number_toString v
                 in (\<exists>n::nat. n \<le> 10000 \<and> v = real n / 10000)
                  \<and> (\<forall>n::nat. v = real n / 10000
                        \<longleftrightarrow> real n \<le> x * 10000 + 1 / 2 \<and> x * 10000 + 1 / 2 < real n + 1)
                  \<and> 0 \<le> v \<and> v \<le> 1 \<and> \<bar>v - x\<bar> \<le> 1 / 20000
                  \<and> (v = 1 \<longleftrightarrow> 9999.5 / 10000 \<le> x)
                  \<and> decimal_value t = v
                  \<and> (t = ''0'' \<or> t = ''1''
                      \<or> (\<exists>ds. t = ''0.'' @ ds \<and> ds \<noteq> [] \<and> length ds \<le> 4
                             \<and> set ds \<subseteq> digits \<and> last ds \<noteq> CHR ''0'')))"
proof -
  have full: "latexOutput s' =
           markup ''tabular'' (style_value f) (autoNumber_checked f) (header_checked f)
             (if autoNumber_checked f then c + 1 else c) r
             (header_cells (autoNumber_checked f) (fontStyle_value f) c)
             (\<lambda>i. number_cell (autoNumber_checked f) (fontStyle_value f) i
                  @ map (\<lambda>j. applyFontStyle
                               (number_toString (generateRandomValue
                                  (random (nat (int (random_calls s0) + (i - 1) * c + j)))))
                               (fontStyle_value f))
                      [0..c - 1])"
    unfolding click_outputs(2) [OF assms(1-5)] full_markup_def row_cells_def data_cell_def
    using assms(6) by (simp add: add.assoc)
  have prev: "latexPreview s' =
           markup ''array'' (style_value f) (autoNumber_checked f) (header_checked f)
             (if autoNumber_checked f then min c 5 + 1 else min c 5) (min r 5)
             (header_cells (autoNumber_checked f) (fontStyle_value f) (min c 5))
             (\<lambda>i. number_cell (autoNumber_checked f) (fontStyle_value f) i
                  @ map (\<lambda>j. applyFontStyle
                               (number_toString (generateRandomValue
                                  (random (nat (int (random_calls s0) + (i - 1) * c + j)))))
                               (fontStyle_value f))
                      [0..min c 5 - 1])"
    unfolding click_outputs(3) [OF assms(1-5)] preview_markup_def row_cells_def data_cell_def
    using assms(6) by (simp add: add.assoc)
  have vals: "(\<exists>n::nat. n \<le> 10000 \<and> generateRandomValue (random k) = real n / 10000)
        \<and> (\<forall>n::nat. generateRandomValue (random k) = real n / 10000
              \<longleftrightarrow> real n \<le> random k * 10000 + 1 / 2 \<and> random k * 10000 + 1 / 2 < real n + 1)
        \<and> 0 \<le> generateRandomValue (random k) \<and> generateRandomValue (random k) \<le> 1
        \<and> \<bar>generateRandomValue (random k) - random k\<bar> \<le> 1 / 20000
        \<and> (generateRandomValue (random k) = 1 \<longleftrightarrow> 9999.5 / 10000 \<le> random k)
        \<and> decimal_value (number_toString (generateRandomValue (random k)))
            = generateRandomValue (random k)
        \<and> (number_toString (generateRandomValue (random k)) = ''0''
            \<or> number_toString (generateRandomValue (random k)) = ''1''
            \<or> (\<exists>ds. number_toString (generateRandomValue (random k)) = ''0.'' @ ds \<and> ds \<noteq> []
                   \<and> length ds \<le> 4 \<and> set ds \<subseteq> digits \<and> last ds \<noteq> CHR ''0''))" for k
  proof -
    have x: "0 \<le> random k" "random k < 1" using assms(7) by simp_all
    from rounded_draw(1) [OF x] have grid:
      "\<exists>n::nat. n \<le> 10000 \<and> generateRandomValue (random k) = real n / 10000"
      by blast
    show ?thesis
      by (intro conjI allI grid rounded_draw(2) [OF x] rounded_draw(3) [OF x]
          rounded_draw(4) [OF x] rounded_draw(5) [OF x] rounded_draw(6) [OF x]
          rounded_draw(7) [OF x] rounded_draw(8) [OF x])
  qed
  show ?thesis
    unfolding Let_def by (intro conjI allI full prev vals)
qed

theorem numeric_cell_values_witness:
  "parseInt ''1'' = Some 1 \<and> parseInt ''2'' = Some 2 \<and> (0::int) < 1 \<and> (0::int) < 2
   \<and> isNumeric_checked (table_form ''1'' ''2'' ''none'' False False ''normal'' True)
   \<and> (\<forall>k. 0 \<le> draws [1 / 2, 1 / 32] k \<and> draws [1 / 2, 1 / 32] k < 1)
   \<and> latexOutput (snd (generateBtn_click
         (table_form ''1'' ''2'' ''none'' False False ''normal'' True) (draws [1 / 2, 1 / 32])
         page_loaded))
       = BS # ''begin{tabular}{c c }\<newline>0.5 & 0.0313 '' @ [BS, BS] @ ''\<newline>''
           @ BS # ''end{tabular}''
   \<and> draws [1 / 2, 1 / 32] 1 * 10000 + 1 / 2 = 313
   \<and> generateRandomValue (draws [1 / 2, 1 / 32] 1) = 313 / 10000
   \<and> number_toString (313 / 10000) = ''0.0313''
   \<and> decimal_value ''0.0313'' = 313 / 10000"
proof -
  let ?f = "table_form ''1'' ''2'' ''none'' False False ''normal'' True"
  let ?d = "draws [1 / 2, 1 / 32]"
  have p: "parseInt (rows_value ?f) = Some 1" "parseInt (columns_value ?f) = Some 2"
    "isNumeric_checked ?f"
    by (simp_all add: parseInt_examples table_form_sel)
  have g: "generateBtn_click ?f ?d page_loaded
             = (fst (generateBtn_click ?f ?d page_loaded),
                snd (generateBtn_click ?f ?d page_loaded))"
    by simp
  have h: "\<forall>k. 0 \<le> ?d k \<and> ?d k < 1"
    by (auto simp: draws_def less_Suc_eq numeral_2_eq_2)
  have n: "random_calls page_loaded = 0" by (simp add: page_loaded_def)
  from numeric_cell_values [OF p(1,2) _ _ g p(3) h]
  have a: "latexOutput (snd (generateBtn_click ?f ?d page_loaded))
       = BS # ''begin{tabular}{c c }\<newline>0.5 & 0.0313 '' @ [BS, BS] @ ''\<newline>''
           @ BS # ''end{tabular}''"
    by (simp add: n table_form_sel markup_simps)
  have b: "generateRandomValue (?d 1) = 313 / 10000"
    by (simp add: generateRandomValue_def draws_def)
  have c: "decimal_value ''0.0313'' = 313 / 10000"
    by (simp add: decimal_value_def digits_value_def digit_of_def)
  have d: "?d 1 * 10000 + 1 / 2 = 313" "number_toString (313 / 10000) = ''0.0313''"
    by (simp_all add: markup_simps)
  from a b c d h show ?thesis by (simp add: parseInt_examples table_form_sel)
qed

theorem numeric_cell_values_counterexample:
  "(0::real) \<le> 65535 / 65536 \<and> (65535 / 65536 :: real) < 1
   \<and> generateRandomValue (65535 / 65536) = 1
   \<and> \<not> generateRandomValue (65535 / 65536) < 1
   \<and> number_toString (generateRandomValue (65535 / 65536)) = ''1''
   \<and> latexOutput (snd (generateBtn_click (table_form ''1'' ''1'' ''none'' False False ''normal'' True)
        (draws [65535 / 65536]) page_loaded))
      = BS # ''begin{tabular}{c }\<newline>1 '' @ [BS, BS] @ ''\<newline>'' @ BS # ''end{tabular}''"
  by (subst click_valid [where r = 1 and c = 1])
     (simp_all add: parseInt_examples table_form_sel markup_simps page_loaded_def)

text \<open>
  C4, as amended: for every valid configuration, what a call leaves behind is determined
  by the form and, with numeric cells, by the \<open>rows * columns\<close> values the random source
  returns during the call: two calls on the same form that see the same draws end in the
  same page (the count of draws apart) and the same four strings, whatever page either
  started from. Without numeric cells the premise on the draws is void. With numeric
  cells two calls on the same form differ when the draws differ: the call is not a
  function of the form alone, as the specification has it.
\<close>

theorem generation_determined:
  assumes "parseInt (rows_value f) = Some r" "parseInt (columns_value f) = Some c" "0 < r" "0 < c"
    and "generateBtn_click f random s0 = (e, s')"
    and "generateBtn_click f random2 t0 = (e2, t')"
    and "isNumeric_checked f \<Longrightarrow>
           \<forall>k<nat (r * c). random (random_calls s0 + k) = random2 (random_calls t0 + k)"
  shows "e = e2 \<and> s'\<lparr>random_calls := 0\<rparr> = t'\<lparr>random_calls := 0\<rparr>
       \<and> latexOutput s' = latexOutput t' \<and> latexPreview s' = latexPreview t'
       \<and> output_value s' = output_value t' \<and> tablePreview s' = tablePreview t'"
proof -
  note m = markup_draws [OF assms(7)]
  have s': "s' = snd (generateBtn_click f random s0)" and t': "t' = snd (generateBtn_click f random2 t0)"
    using assms(5,6) by simp_all
  have "s'\<lparr>random_calls := 0\<rparr> = t'\<lparr>random_calls := 0\<rparr>"
    unfolding s' t' click_valid [OF assms(1-4)] snd_conv
    by (rule page.equality) (simp_all add: m)
  moreover have "e = e2"
    using click_outputs(1) [OF assms(1-5)] click_outputs(1) [OF assms(1-4,6)] by simp
  ultimately show ?thesis
    unfolding click_outputs(2-5) [OF assms(1-5)] click_outputs(2-5) [OF assms(1-4,6)]
    by (simp add: m)
qed

theorem generation_determined_witness:
  "parseInt ''1'' = Some 1 \<and> parseInt ''2'' = Some 2 \<and> (0::int) < 1 \<and> (0::int) < 2
   \<and> isNumeric_checked (table_form ''1'' ''2'' ''full'' True True ''bold'' True)
   \<and> nat (1 * 2) = 2
   \<and> draws [1 / 2, 1 / 4] (random_calls page_loaded + 0)
       = draws [9 / 10, 1 / 2, 1 / 4]
           (random_calls (snd (generateBtn_click
              (table_form ''1'' ''1'' ''none'' False False ''normal'' True) (draws [9 / 10])
              page_loaded)) + 0)
   \<and> draws [1 / 2, 1 / 4] (random_calls page_loaded + 1)
       = draws [9 / 10, 1 / 2, 1 / 4]
           (random_calls (snd (generateBtn_click
              (table_form ''1'' ''1'' ''none'' False False ''normal'' True) (draws [9 / 10])
              page_loaded)) + 1)
   \<and> latexOutput (snd (generateBtn_click (table_form ''1'' ''2'' ''full'' True True ''bold'' True)
         (draws [1 / 2, 1 / 4]) page_loaded))
       = latexOutput (snd (generateBtn_click (table_form ''1'' ''2'' ''full'' True True ''bold'' True)
         (draws [9 / 10, 1 / 2, 1 / 4])
         (snd (generateBtn_click (table_form ''1'' ''1'' ''none'' False False ''normal'' True)
            (draws [9 / 10]) page_loaded))))
   \<and> latexPreview (snd (generateBtn_click (table_form ''1'' ''2'' ''full'' True True ''bold'' True)
         (draws [1 / 2, 1 / 4]) page_loaded))
       = latexPreview (snd (generateBtn_click (table_form ''1'' ''2'' ''full'' True True ''bold'' True)
         (draws [9 / 10, 1 / 2, 1 / 4])
         (snd (generateBtn_click (table_form ''1'' ''1'' ''none'' False False ''normal'' True)
            (draws [9 / 10]) page_loaded))))"
proof -
  let ?f = "table_form ''1'' ''2'' ''full'' True True ''bold'' True"
  let ?g = "table_form ''1'' ''1'' ''none'' False False ''normal'' True"
  let ?t0 = "snd (generateBtn_click ?g (draws [9 / 10]) page_loaded)"
  have n: "random_calls ?t0 = 1"
    by (subst click_valid [where r = 1 and c = 1])
       (simp_all add: parseInt_examples table_form_sel page_loaded_def)
  have h: "\<forall>k<nat (1 * 2). draws [1 / 2, 1 / 4] (random_calls page_loaded + k)
          = draws [9 / 10, 1 / 2, 1 / 4] (random_calls ?t0 + k)"
    unfolding n by (auto simp: draws_def page_loaded_def less_Suc_eq numeral_2_eq_2)
  have p: "parseInt (rows_value ?f) = Some 1" "parseInt (columns_value ?f) = Some 2"
    by (simp_all add: parseInt_examples table_form_sel)
  have g: "generateBtn_click ?f (draws [1 / 2, 1 / 4]) page_loaded
             = (fst (generateBtn_click ?f (draws [1 / 2, 1 / 4]) page_loaded),
                snd (generateBtn_click ?f (draws [1 / 2, 1 / 4]) page_loaded))"
    "generateBtn_click ?f (draws [9 / 10, 1 / 2, 1 / 4]) ?t0
             = (fst (generateBtn_click ?f (draws [9 / 10, 1 / 2, 1 / 4]) ?t0),
                snd (generateBtn_click ?f (draws [9 / 10, 1 / 2, 1 / 4]) ?t0))"
    by simp_all
  from generation_determined [OF p _ _ g h]
  have "latexOutput (snd (generateBtn_click ?f (draws [1 / 2, 1 / 4]) page_loaded))
          = latexOutput (snd (generateBtn_click ?f (draws [9 / 10, 1 / 2, 1 / 4]) ?t0))"
    "latexPreview (snd (generateBtn_click ?f (draws [1 / 2, 1 / 4]) page_loaded))
          = latexPreview (snd (generateBtn_click ?f (draws [9 / 10, 1 / 2, 1 / 4]) ?t0))"
    by simp_all
  moreover have "draws [1 / 2, 1 / 4] (random_calls page_loaded + 0)
       = draws [9 / 10, 1 / 2, 1 / 4] (random_calls ?t0 + 0)"
    "draws [1 / 2, 1 / 4] (random_calls page_loaded + 1)
       = draws [9 / 10, 1 / 2, 1 / 4] (random_calls ?t0 + 1)"
    unfolding n by (simp_all add: draws_def page_loaded_def)
  ultimately show ?thesis by (simp add: parseInt_examples table_form_sel)
qed

theorem generation_determined_counterexample:
  "latexOutput (snd (generateBtn_click (table_form ''1'' ''1'' ''none'' False False ''normal'' True)
      (draws [0, 1 / 2]) page_loaded))
    = BS # ''begin{tabular}{c }\<newline>0 '' @ [BS, BS] @ ''\<newline>'' @ BS # ''end{tabular}''
   \<and> latexOutput (snd (generateBtn_click (table_form ''1'' ''1'' ''none'' False False ''normal'' True)
      (draws [0, 1 / 2])
      (snd (generateBtn_click (table_form ''1'' ''1'' ''none'' False False ''normal'' True)
         (draws [0, 1 / 2]) page_loaded))))
    = BS # ''begin{tabular}{c }\<newline>0.5 '' @ [BS, BS] @ ''\<newline>'' @ BS # ''end{tabular}''"
  by (subst (1 2 3) click_valid [where r = 1 and c = 1])
     (simp_all add: parseInt_examples table_form_sel markup_simps page_loaded_def)

text \<open>
  C5: for every valid configuration, the preview holds, for its rows \<open>1..min rows 5\<close> and
  its header, the first cells of the corresponding full row: the header cells and the cells
  of each row of the preview are a prefix (\<open>take\<close>) of the cell list of the full output,
  text for text, the random cells included, since both are built from the same cell text.
\<close>

theorem preview_prefix:
  assumes "parseInt (rows_value f) = Some r" "parseInt (columns_value f) = Some c" "0 < r" "0 < c"
    and "generateBtn_click f random s0 = (e, s')"
  shows "latexOutput s' =
           markup ''tabular'' (style_value f) (autoNumber_checked f) (header_checked f)
             (if autoNumber_checked f then c + 1 else c) r
             (header_cells (autoNumber_checked f) (fontStyle_value f) c)
             (row_cells (autoNumber_checked f) (fontStyle_value f) (isNumeric_checked f)
                random (random_calls s0) c c)
       \<and> latexPreview s' =
           markup ''array'' (style_value f) (autoNumber_checked f) (header_checked f)
             (if autoNumber_checked f then min c 5 + 1 else min c 5) (min r 5)
             (take (nat (if autoNumber_checked f then min c 5 + 1 else min c 5))
                (header_cells (autoNumber_checked f) (fontStyle_value f) c))
             (\<lambda>i. take (nat (if autoNumber_checked f then min c 5 + 1 else min c 5))
                (row_cells (autoNumber_checked f) (fontStyle_value f) (isNumeric_checked f)
                   random (random_calls s0) c c i))"
proof -
  have w: "0 \<le> min c 5" "min c 5 \<le> c" using assms(4) by simp_all
  show ?thesis
    unfolding click_outputs(2,3) [OF assms] full_markup_def preview_markup_def
      header_cells_take [OF w, symmetric] row_cells_take [OF w, symmetric]
    by simp
qed

theorem preview_prefix_witness:
  "parseInt ''7'' = Some 7 \<and> parseInt ''6'' = Some 6 \<and> (0::int) < 7 \<and> (0::int) < 6
   \<and> latexOutput (snd (generateBtn_click
         (table_form ''7'' ''6'' ''horizontal'' True True ''bold'' True) (draws [1 / 2, 1 / 4])
         page_loaded))
       = markup ''tabular'' ''horizontal'' True True 7 7 (header_cells True ''bold'' 6)
           (row_cells True ''bold'' True (draws [1 / 2, 1 / 4]) 0 6 6)
   \<and> latexPreview (snd (generateBtn_click
         (table_form ''7'' ''6'' ''horizontal'' True True ''bold'' True) (draws [1 / 2, 1 / 4])
         page_loaded))
       = markup ''array'' ''horizontal'' True True 6 5 (take 6 (header_cells True ''bold'' 6))
           (\<lambda>i. take 6 (row_cells True ''bold'' True (draws [1 / 2, 1 / 4]) 0 6 6 i))"
  using preview_prefix [of "table_form ''7'' ''6'' ''horizontal'' True True ''bold'' True" 7 6
      "draws [1 / 2, 1 / 4]" page_loaded
      "fst (generateBtn_click
         (table_form ''7'' ''6'' ''horizontal'' True True ''bold'' True) (draws [1 / 2, 1 / 4])
         page_loaded)"
      "snd (generateBtn_click
         (table_form ''7'' ''6'' ''horizontal'' True True ''bold'' True) (draws [1 / 2, 1 / 4])
         page_loaded)"]
  by (clarsimp simp: parseInt_examples table_form_sel page_loaded_def)

text \<open>
  C6: for every valid configuration, the preview has \<open>min rows 5\<close> data rows, plus the
  header row if there is one (so many row-end markers), and every row of it has
  \<open>min columns 5\<close> cells, plus the row-number cell when rows are numbered (one separator
  less than cells in every row line).
\<close>

theorem preview_size:
  assumes "parseInt (rows_value f) = Some r" "parseInt (columns_value f) = Some c" "0 < r" "0 < c"
    and "generateBtn_click f random s0 = (e, s')"
  shows "latexPreview s' =
           markup ''array'' (style_value f) (autoNumber_checked f) (header_checked f)
             (if autoNumber_checked f then min c 5 + 1 else min c 5) (min r 5)
             (header_cells (autoNumber_checked f) (fontStyle_value f) (min c 5))
             (row_cells (autoNumber_checked f) (fontStyle_value f) (isNumeric_checked f)
                random (random_calls s0) c (min c 5))
       \<and> occurrences [BS, BS] (latexPreview s') = nat (min r 5) + (if header_checked f then 1 else 0)
       \<and> length (header_cells (autoNumber_checked f) (fontStyle_value f) (min c 5))
             = nat (min c 5) + (if autoNumber_checked f then 1 else 0)
       \<and> count_list (join '' & '' (header_cells (autoNumber_checked f) (fontStyle_value f) (min c 5)))
             (CHR ''&'') + 1 = nat (min c 5) + (if autoNumber_checked f then 1 else 0)
       \<and> (\<forall>i. length (row_cells (autoNumber_checked f) (fontStyle_value f) (isNumeric_checked f)
                          random (random_calls s0) c (min c 5) i)
                  = nat (min c 5) + (if autoNumber_checked f then 1 else 0)
              \<and> count_list (join '' & '' (row_cells (autoNumber_checked f) (fontStyle_value f)
                    (isNumeric_checked f) random (random_calls s0) c (min c 5) i)) (CHR ''&'') + 1
                  = nat (min c 5) + (if autoNumber_checked f then 1 else 0))"
proof -
  have w: "0 \<le> min c 5" "0 < min c 5" using assms(4) by simp_all
  note len = cells_length [OF w(1)]
  have "0 < length (header_cells an fs (min c 5))"
    "0 < length (row_cells an fs num rnd n0 c (min c 5) i)" for an fs num rnd n0 i
    unfolding len using w(2) by simp_all
  then have ne: "header_cells an fs (min c 5) \<noteq> []" "row_cells an fs num rnd n0 c (min c 5) i \<noteq> []"
    for an fs num rnd n0 i
    by fastforce+
  have amp: "cell \<in> set (header_cells an fs (min c 5)) \<Longrightarrow> CHR ''&'' \<notin> set cell"
    "cell \<in> set (row_cells an fs num rnd n0 c (min c 5) i) \<Longrightarrow> CHR ''&'' \<notin> set cell"
    for cell an fs num rnd n0 i
    by (rule cell_ok_no_amp [OF header_cells_ok], assumption)
       (rule cell_ok_no_amp [OF row_cells_ok], assumption)
  have "count_list (join '' & '' (header_cells an fs (min c 5))) (CHR ''&'') + 1
          = nat (min c 5) + (if an then 1 else 0)" for an fs
    using count_join [OF amp(1) ne(1)] len(1) [of an fs] by simp
  moreover have "count_list (join '' & '' (row_cells an fs num rnd n0 c (min c 5) i)) (CHR ''&'') + 1
          = nat (min c 5) + (if an then 1 else 0)" for an fs num rnd n0 i
    using count_join [OF amp(2) ne(2)] len(2) [of an fs num rnd n0 c i] by simp
  ultimately show ?thesis
    unfolding click_outputs(3) [OF assms] occurrences_preview_markup
    by (simp add: preview_markup_def len)
qed

theorem preview_size_witness:
  "parseInt ''7'' = Some 7 \<and> parseInt ''6'' = Some 6 \<and> (0::int) < 7 \<and> (0::int) < 6
   \<and> latexPreview (snd (generateBtn_click
         (table_form ''7'' ''6'' ''horizontal'' True True ''bold'' False) (draws []) page_loaded))
       = markup ''array'' ''horizontal'' True True 6 5 (header_cells True ''bold'' 5)
           (row_cells True ''bold'' False (draws []) 0 6 5)
   \<and> occurrences [BS, BS] (latexPreview (snd (generateBtn_click
         (table_form ''7'' ''6'' ''horizontal'' True True ''bold'' False) (draws []) page_loaded)))
       = 6
   \<and> length (header_cells True ''bold'' 5) = 6
   \<and> count_list (join '' & '' (header_cells True ''bold'' 5)) (CHR ''&'') + 1 = 6
   \<and> (\<forall>i. length (row_cells True ''bold'' False (draws []) 0 6 5 i) = 6
          \<and> count_list (join '' & '' (row_cells True ''bold'' False (draws []) 0 6 5 i)) (CHR ''&'') + 1
              = 6)"
  using preview_size [of "table_form ''7'' ''6'' ''horizontal'' True True ''bold'' False" 7 6
      "draws []" page_loaded
      "fst (generateBtn_click
         (table_form ''7'' ''6'' ''horizontal'' True True ''bold'' False) (draws []) page_loaded)"
      "snd (generateBtn_click
         (table_form ''7'' ''6'' ''horizontal'' True True ''bold'' False) (draws []) page_loaded)"]
  by (clarsimp simp: parseInt_examples table_form_sel page_loaded_def)

text \<open>
  C7: for every valid configuration whose border style is one of \<open>full\<close>, \<open>horizontal\<close>,
  \<open>none\<close>, the column specification and the rule lines of both outputs are those the
  style prescribes (\<open>bordered_table\<close>), over \<open>totalColumns\<close> and \<open>rows\<close> in the full
  output and over \<open>totalPreviewColumns\<close> and \<open>previewRows\<close> in the preview. The witness is
  the example of the specification: one row, one column, style \<open>full\<close>.
\<close>

theorem border_styles:
  assumes "parseInt (rows_value f) = Some r" "parseInt (columns_value f) = Some c" "0 < r" "0 < c"
    and "generateBtn_click f random s0 = (e, s')"
    and "style_value f \<in> {''full'', ''horizontal'', ''none''}"
  shows "latexOutput s' =
           bordered_table ''tabular'' (style_value f) (autoNumber_checked f) (header_checked f)
             (if autoNumber_checked f then c + 1 else c) r
             (header_cells (autoNumber_checked f) (fontStyle_value f) c)
             (row_cells (autoNumber_checked f) (fontStyle_value f) (isNumeric_checked f)
                random (random_calls s0) c c)
       \<and> latexPreview s' =
           bordered_table ''array'' (style_value f) (autoNumber_checked f) (header_checked f)
             (if autoNumber_checked f then min c 5 + 1 else min c 5) (min r 5)
             (header_cells (autoNumber_checked f) (fontStyle_value f) (min c 5))
             (row_cells (autoNumber_checked f) (fontStyle_value f) (isNumeric_checked f)
                random (random_calls s0) c (min c 5))"
  unfolding click_outputs(2,3) [OF assms(1-5)] full_markup_def preview_markup_def
    markup_bordered [OF assms(6)]
  by simp

theorem border_styles_witness:
  "parseInt ''1'' = Some 1 \<and> (0::int) < 1
   \<and> ''full'' \<in> {''full'', ''horizontal'', ''none''}
   \<and> latexOutput (snd (generateBtn_click
         (table_form ''1'' ''1'' ''full'' False False ''normal'' False) (draws []) page_loaded))
       = BS # ''begin{tabular}{|c|}\<newline>'' @ BS # ''hline\<newline>Kolumna1 '' @ [BS, BS] @ ''\<newline>''
           @ BS # ''hline\<newline>'' @ BS # ''end{tabular}''
   \<and> latexPreview (snd (generateBtn_click
         (table_form ''1'' ''1'' ''full'' False False ''normal'' False) (draws []) page_loaded))
       = BS # ''begin{array}{|c|}\<newline>'' @ BS # ''hline\<newline>Kolumna1 '' @ [BS, BS] @ ''\<newline>''
           @ BS # ''hline\<newline>'' @ BS # ''end{array}''"
  using border_styles [of "table_form ''1'' ''1'' ''full'' False False ''normal'' False" 1 1
      "draws []" page_loaded
      "fst (generateBtn_click
         (table_form ''1'' ''1'' ''full'' False False ''normal'' False) (draws []) page_loaded)"
      "snd (generateBtn_click
         (table_form ''1'' ''1'' ''full'' False False ''normal'' False) (draws []) page_loaded)"]
  by (simp add: parseInt_examples table_form_sel bordered_table_def markup_simps)

text \<open>
  C8: for every valid configuration, the number of row-end markers (two backslashes) in
  the full output equals \<open>rows\<close>, plus one when the table has a header.
\<close>

theorem row_end_markers:
  assumes "parseInt (rows_value f) = Some r" "parseInt (columns_value f) = Some c" "0 < r" "0 < c"
    and "generateBtn_click f random s0 = (e, s')"
  shows "occurrences [BS, BS] (latexOutput s') = nat r + (if header_checked f then 1 else 0)"
  unfolding click_outputs(2) [OF assms] by (rule occurrences_full_markup)

theorem row_end_markers_witness:
  "parseInt ''7'' = Some 7 \<and> parseInt ''6'' = Some 6 \<and> (0::int) < 7 \<and> (0::int) < 6
   \<and> occurrences [BS, BS] (latexOutput (snd (generateBtn_click
        \<lparr>rows_value = ''7'', columns_value = ''6'', style_value = ''horizontal'',
         header_checked = True, autoNumber_checked = True, fontStyle_value = ''bold'',
         isNumeric_checked = False\<rparr> (draws []) page_loaded))) = 8"
  using row_end_markers [of "\<lparr>rows_value = ''7'', columns_value = ''6'', style_value = ''horizontal'',
         header_checked = True, autoNumber_checked = True, fontStyle_value = ''bold'',
         isNumeric_checked = False\<rparr>" 7 6 "draws []" page_loaded
         "fst (generateBtn_click
        \<lparr>rows_value = ''7'', columns_value = ''6'', style_value = ''horizontal'',
         header_checked = True, autoNumber_checked = True, fontStyle_value = ''bold'',
         isNumeric_checked = False\<rparr> (draws []) page_loaded)"
         "snd (generateBtn_click
        \<lparr>rows_value = ''7'', columns_value = ''6'', style_value = ''horizontal'',
         header_checked = True, autoNumber_checked = True, fontStyle_value = ''bold'',
         isNumeric_checked = False\<rparr> (draws []) page_loaded)"]
  by (simp add: parseInt_examples)

text \<open>
  C9: for every valid configuration, the full output begins with the opening directive of
  \<open>tabular\<close> and the column specification of the border style and ends with
  \<^verbatim>\<open>\end{tabular}\<close>; the preview does so with \<open>array\<close>. Each holds exactly one
  opening and one closing directive, the preview has one row-end marker for each of its
  rows, and the preview is no fragment of the full output: it does not occur in it.
\<close>

theorem open_close_directives:
  assumes "parseInt (rows_value f) = Some r" "parseInt (columns_value f) = Some c" "0 < r" "0 < c"
    and "generateBtn_click f random s0 = (e, s')"
  shows "prefix (BS # ''begin{tabular}{''
                   @ column_spec (style_value f) (autoNumber_checked f)
                       (if autoNumber_checked f then c + 1 else c) @ ''}\<newline>'') (latexOutput s')
       \<and> suffix (BS # ''end{tabular}'') (latexOutput s')
       \<and> prefix (BS # ''begin{array}{''
                   @ column_spec (style_value f) (autoNumber_checked f)
                       (if autoNumber_checked f then min c 5 + 1 else min c 5) @ ''}\<newline>'')
            (latexPreview s')
       \<and> suffix (BS # ''end{array}'') (latexPreview s')
       \<and> occurrences (BS # ''begin{'') (latexOutput s') = 1
       \<and> occurrences (BS # ''end{'') (latexOutput s') = 1
       \<and> occurrences (BS # ''begin{'') (latexPreview s') = 1
       \<and> occurrences (BS # ''end{'') (latexPreview s') = 1
       \<and> occurrences [BS, BS] (latexPreview s') = nat (min r 5) + (if header_checked f then 1 else 0)
       \<and> \<not> sublist (latexPreview s') (latexOutput s')"
proof -
  note out = click_outputs(2,3) [OF assms]
  have "CHR ''y'' \<in> set (latexPreview s')"
    unfolding out preview_markup_def markup_def by simp
  moreover have "CHR ''y'' \<notin> set (latexOutput s')"
    unfolding out by (rule full_markup_no_y)
  ultimately have "\<not> sublist (latexPreview s') (latexOutput s')"
    using set_mono_sublist by blast
  moreover have "prefix (BS # ''begin{tabular}{''
                   @ column_spec (style_value f) (autoNumber_checked f)
                       (if autoNumber_checked f then c + 1 else c) @ ''}\<newline>'') (latexOutput s')"
    "suffix (BS # ''end{tabular}'') (latexOutput s')"
    using markup_ends [of "''tabular''"] unfolding out full_markup_def by simp_all
  moreover have "prefix (BS # ''begin{array}{''
                   @ column_spec (style_value f) (autoNumber_checked f)
                       (if autoNumber_checked f then min c 5 + 1 else min c 5) @ ''}\<newline>'')
            (latexPreview s')"
    "suffix (BS # ''end{array}'') (latexPreview s')"
    using markup_ends [of "''array''"] unfolding out preview_markup_def by simp_all
  ultimately show ?thesis
    unfolding out by (simp only: occurrences_full_markup occurrences_preview_markup simp_thms)
qed

theorem open_close_directives_witness:
  "parseInt ''7'' = Some 7 \<and> parseInt ''6'' = Some 6 \<and> (0::int) < 7 \<and> (0::int) < 6
   \<and> prefix (BS # ''begin{tabular}{c|'' @ repeat ''c '' 6 @ ''}\<newline>'')
         (latexOutput (snd (generateBtn_click
           (table_form ''7'' ''6'' ''horizontal'' True True ''bold'' False) (draws []) page_loaded)))
   \<and> suffix (BS # ''end{tabular}'')
         (latexOutput (snd (generateBtn_click
           (table_form ''7'' ''6'' ''horizontal'' True True ''bold'' False) (draws []) page_loaded)))
   \<and> prefix (BS # ''begin{array}{c|'' @ repeat ''c '' 5 @ ''}\<newline>'')
         (latexPreview (snd (generateBtn_click
           (table_form ''7'' ''6'' ''horizontal'' True True ''bold'' False) (draws []) page_loaded)))
   \<and> suffix (BS # ''end{array}'')
         (latexPreview (snd (generateBtn_click
           (table_form ''7'' ''6'' ''horizontal'' True True ''bold'' False) (draws []) page_loaded)))
   \<and> occurrences (BS # ''begin{'') (latexPreview (snd (generateBtn_click
           (table_form ''7'' ''6'' ''horizontal'' True True ''bold'' False) (draws []) page_loaded))) = 1
   \<and> occurrences (BS # ''end{'') (latexPreview (snd (generateBtn_click
           (table_form ''7'' ''6'' ''horizontal'' True True ''bold'' False) (draws []) page_loaded))) = 1
   \<and> occurrences [BS, BS] (latexPreview (snd (generateBtn_click
           (table_form ''7'' ''6'' ''horizontal'' True True ''bold'' False) (draws []) page_loaded))) = 6
   \<and> \<not> sublist
         (latexPreview (snd (generateBtn_click
           (table_form ''7'' ''6'' ''horizontal'' True True ''bold'' False) (draws []) page_loaded)))
         (latexOutput (snd (generateBtn_click
           (table_form ''7'' ''6'' ''horizontal'' True True ''bold'' False) (draws []) page_loaded)))"
  using open_close_directives [of "table_form ''7'' ''6'' ''horizontal'' True True ''bold'' False" 7 6
      "draws []" page_loaded
      "fst (generateBtn_click
         (table_form ''7'' ''6'' ''horizontal'' True True ''bold'' False) (draws []) page_loaded)"
      "snd (generateBtn_click
         (table_form ''7'' ''6'' ''horizontal'' True True ''bold'' False) (draws []) page_loaded)"]
  by (clarsimp simp: parseInt_examples table_form_sel column_spec_def)

text \<open>
  C10, as amended: \<open>applyFontStyle\<close> returns the text unchanged for every font style
  other than \<open>bold\<close>, and a form with such a font style generates what it generates
  with \<open>normal\<close>. For a border style other than \<open>full\<close> and \<open>horizontal\<close> the column
  specification is that of \<open>none\<close> and no rule follows a data row; without a header the
  outputs are those of \<open>none\<close>. With a header, a rule line follows the header row unless
  the style is exactly \<open>none\<close>: there an unrecognised style does not behave as the
  default, as the specification has it. Generation succeeds for every string in the two fields.
\<close>

theorem unrecognized_values:
  assumes "parseInt (rows_value f) = Some r" "parseInt (columns_value f) = Some c" "0 < r" "0 < c"
    and "generateBtn_click f random s0 = (e, s')"
    and "generateBtn_click (f\<lparr>fontStyle_value := ''normal''\<rparr>) random s0 = (e1, s1)"
    and "generateBtn_click (f\<lparr>style_value := ''none''\<rparr>) random s0 = (e2, s2)"
  shows "e = None
       \<and> (fs \<noteq> ''bold'' \<longrightarrow> applyFontStyle t fs = t)
       \<and> (fontStyle_value f \<noteq> ''bold'' \<longrightarrow>
            latexOutput s' = latexOutput s1 \<and> latexPreview s' = latexPreview s1)
       \<and> (style_value f \<noteq> ''full'' \<and> style_value f \<noteq> ''horizontal'' \<and> \<not> header_checked f \<longrightarrow>
            latexOutput s' = latexOutput s2 \<and> latexPreview s' = latexPreview s2)
       \<and> (style_value f \<noteq> ''full'' \<and> style_value f \<noteq> ''horizontal'' \<longrightarrow>
            latexOutput s' =
              BS # ''begin{tabular}{'' @ repeat ''c '' (if autoNumber_checked f then c + 1 else c)
              @ ''}\<newline>''
              @ (if header_checked f
                 then join '' & '' (header_cells (autoNumber_checked f) (fontStyle_value f) c)
                      @ row_end @ (if style_value f = ''none'' then [] else hline)
                 else [])
              @ concat (map (\<lambda>i. join '' & '' (row_cells (autoNumber_checked f) (fontStyle_value f)
                                 (isNumeric_checked f) random (random_calls s0) c c i) @ row_end)
                  [1..r])
              @ BS # ''end{tabular}''
          \<and> latexPreview s' =
              BS # ''begin{array}{''
              @ repeat ''c '' (if autoNumber_checked f then min c 5 + 1 else min c 5) @ ''}\<newline>''
              @ (if header_checked f
                 then join '' & '' (header_cells (autoNumber_checked f) (fontStyle_value f) (min c 5))
                      @ row_end @ (if style_value f = ''none'' then [] else hline)
                 else [])
              @ concat (map (\<lambda>i. join '' & '' (row_cells (autoNumber_checked f) (fontStyle_value f)
                                 (isNumeric_checked f) random (random_calls s0) c (min c 5) i)
                               @ row_end)
                  [1..min r 5])
              @ BS # ''end{array}'')"
proof -
  have v1: "parseInt (rows_value (f\<lparr>fontStyle_value := ''normal''\<rparr>)) = Some r"
    "parseInt (columns_value (f\<lparr>fontStyle_value := ''normal''\<rparr>)) = Some c"
    and v2: "parseInt (rows_value (f\<lparr>style_value := ''none''\<rparr>)) = Some r"
    "parseInt (columns_value (f\<lparr>style_value := ''none''\<rparr>)) = Some c"
    using assms(1,2) by simp_all
  note o = click_outputs(2,3) [OF assms(1-5)]
  note o1 = click_outputs(2,3) [OF v1 assms(3,4,6)]
  note o2 = click_outputs(2,3) [OF v2 assms(3,4,7)]
  have a: "fontStyle_value f \<noteq> ''bold'' \<longrightarrow>
            latexOutput s' = latexOutput s1 \<and> latexPreview s' = latexPreview s1"
    unfolding o o1 using plain_style by blast
  have b: "style_value f \<noteq> ''full'' \<and> style_value f \<noteq> ''horizontal'' \<and> \<not> header_checked f \<longrightarrow>
            latexOutput s' = latexOutput s2 \<and> latexPreview s' = latexPreview s2"
    unfolding o o2 using default_border by blast
  show ?thesis
    using click_outputs(1) [OF assms(1-5)] a b
    unfolding o full_markup_def preview_markup_def markup_def
    by (simp add: applyFontStyle_def column_spec_def rule_after_def)
qed

theorem unrecognized_values_witness:
  "parseInt ''1'' = Some 1 \<and> (0::int) < 1
   \<and> fst (generateBtn_click
         (table_form ''1'' ''1'' ''dotted'' False False ''italic'' False) (draws []) page_loaded)
       = None
   \<and> ''italic'' \<noteq> ''bold'' \<and> applyFontStyle ''x'' ''italic'' = ''x''
   \<and> ''dotted'' \<noteq> ''full'' \<and> ''dotted'' \<noteq> ''horizontal''
   \<and> latexOutput (snd (generateBtn_click
         (table_form ''1'' ''1'' ''dotted'' False False ''italic'' False) (draws []) page_loaded))
       = latexOutput (snd (generateBtn_click
         (table_form ''1'' ''1'' ''dotted'' False False ''normal'' False) (draws []) page_loaded))
   \<and> latexOutput (snd (generateBtn_click
         (table_form ''1'' ''1'' ''dotted'' False False ''italic'' False) (draws []) page_loaded))
       = latexOutput (snd (generateBtn_click
         (table_form ''1'' ''1'' ''none'' False False ''italic'' False) (draws []) page_loaded))
   \<and> latexOutput (snd (generateBtn_click
         (table_form ''1'' ''1'' ''dotted'' False False ''italic'' False) (draws []) page_loaded))
       = BS # ''begin{tabular}{c }\<newline>Kolumna1 '' @ [BS, BS] @ ''\<newline>'' @ BS # ''end{tabular}''"
proof -
  let ?f = "table_form ''1'' ''1'' ''dotted'' False False ''italic'' False"
  have f1: "?f\<lparr>fontStyle_value := ''normal''\<rparr>
              = table_form ''1'' ''1'' ''dotted'' False False ''normal'' False"
    and f2: "?f\<lparr>style_value := ''none''\<rparr>
              = table_form ''1'' ''1'' ''none'' False False ''italic'' False"
    by (simp_all add: table_form_def)
  show ?thesis
    using unrecognized_values [of ?f 1 1 "draws []" page_loaded
      "fst (generateBtn_click ?f (draws []) page_loaded)"
      "snd (generateBtn_click ?f (draws []) page_loaded)"
      "fst (generateBtn_click (?f\<lparr>fontStyle_value := ''normal''\<rparr>) (draws []) page_loaded)"
      "snd (generateBtn_click (?f\<lparr>fontStyle_value := ''normal''\<rparr>) (draws []) page_loaded)"
      "fst (generateBtn_click (?f\<lparr>style_value := ''none''\<rparr>) (draws []) page_loaded)"
      "snd (generateBtn_click (?f\<lparr>style_value := ''none''\<rparr>) (draws []) page_loaded)"
      "''italic''" "''x''"]
    unfolding f1 f2
    by (clarsimp simp: parseInt_examples table_form_sel markup_simps)
qed

theorem unrecognized_values_counterexample:
  "latexOutput (snd (generateBtn_click
      (table_form ''1'' ''1'' ''dotted'' True False ''normal'' False) (draws []) page_loaded))
    = BS # ''begin{tabular}{c }\<newline>Nag'' @ [CHR 0xC5, CHR 0x82, CHR 0xC3, CHR 0xB3] @ ''wek 1 ''
        @ [BS, BS] @ ''\<newline>'' @ BS # ''hline\<newline>Kolumna1 '' @ [BS, BS] @ ''\<newline>''
        @ BS # ''end{tabular}''
   \<and> latexOutput (snd (generateBtn_click
      (table_form ''1'' ''1'' ''none'' True False ''normal'' False) (draws []) page_loaded))
    = BS # ''begin{tabular}{c }\<newline>Nag'' @ [CHR 0xC5, CHR 0x82, CHR 0xC3, CHR 0xB3] @ ''wek 1 ''
        @ [BS, BS] @ ''\<newline>Kolumna1 '' @ [BS, BS] @ ''\<newline>'' @ BS # ''end{tabular}''
   \<and> latexOutput (snd (generateBtn_click
      (table_form ''1'' ''1'' ''dotted'' True False ''normal'' False) (draws []) page_loaded))
    \<noteq> latexOutput (snd (generateBtn_click
      (table_form ''1'' ''1'' ''none'' True False ''normal'' False) (draws []) page_loaded))"
  by (subst (1 2 3 4) click_valid [where r = 1 and c = 1])
     (simp_all add: parseInt_examples table_form_sel markup_simps)

end
